theory Spec2Isabelle
  imports Main "HOL-Library.Sublist"
begin

chapter \<open>The furigana and ruby text-annotation engine\<close>

text \<open>
  A shallow embedding of the Python scripts \<^verbatim>\<open>furigana_helper.py\<close>,
  \<^verbatim>\<open>extract-ruby-smart.py\<close>, \<^verbatim>\<open>utils/fix-ruby-newlines.py\<close> and of the
  dictionary-building loop of \<^verbatim>\<open>epub-to-text-furigana.py\<close>.

  A Python \<^verbatim>\<open>str\<close> is a sequence of Unicode code points, and \<^verbatim>\<open>len\<close>, indexing,
  slicing and the regular expressions of the scripts all count code points. A character
  is therefore a natural number (its code point, what \<^verbatim>\<open>ord\<close> returns) and a string is
  a list of them. Code points are written in hexadecimal, as the regular expressions of
  the scripts write them.
\<close>

section \<open>Python strings\<close>

type_synonym uchar = nat
type_synonym ustring = "uchar list"

text \<open>
  \<^verbatim>\<open>str.isspace\<close> for one character: the code points whose Unicode category is
  \<^verbatim>\<open>Zs\<close> or whose bidirectional class is \<^verbatim>\<open>WS\<close>, \<^verbatim>\<open>B\<close> or \<^verbatim>\<open>S\<close>. The
  ideographic space U+3000 is one of them.
\<close>

definition py_isspace :: "uchar \<Rightarrow> bool" where
  "py_isspace c \<longleftrightarrow>
     (0x09 \<le> c \<and> c \<le> 0x0D) \<or> (0x1C \<le> c \<and> c \<le> 0x20) \<or> c = 0x85 \<or> c = 0xA0 \<or>
     c = 0x1680 \<or> (0x2000 \<le> c \<and> c \<le> 0x200A) \<or> c = 0x2028 \<or> c = 0x2029 \<or>
     c = 0x202F \<or> c = 0x205F \<or> c = 0x3000"

text \<open>\<^verbatim>\<open>s.lstrip()\<close>, \<^verbatim>\<open>s.rstrip()\<close> and \<^verbatim>\<open>s.strip()\<close> without argument.\<close>

definition lstrip :: "ustring \<Rightarrow> ustring" where
  "lstrip s = dropWhile py_isspace s"

definition rstrip :: "ustring \<Rightarrow> ustring" where
  "rstrip s = rev (dropWhile py_isspace (rev s))"

definition strip :: "ustring \<Rightarrow> ustring" where
  "strip s = rstrip (lstrip s)"

text \<open>\<^verbatim>\<open>s.startswith(p)\<close> and \<^verbatim>\<open>s.endswith(p)\<close>; with a tuple, any of its members.\<close>

definition startswith :: "ustring \<Rightarrow> ustring \<Rightarrow> bool" where
  "startswith s p \<longleftrightarrow> take (length p) s = p"

definition endswith :: "ustring \<Rightarrow> ustring \<Rightarrow> bool" where
  "endswith s p \<longleftrightarrow> length p \<le> length s \<and> drop (length s - length p) s = p"

definition startswith_any :: "ustring \<Rightarrow> ustring list \<Rightarrow> bool" where
  "startswith_any s ps \<longleftrightarrow> list_ex (startswith s) ps"

definition endswith_any :: "ustring \<Rightarrow> ustring list \<Rightarrow> bool" where
  "endswith_any s ps \<longleftrightarrow> list_ex (endswith s) ps"

section \<open>ReadingConverter: \<^verbatim>\<open>furigana_helper.py\<close>, katakana to hiragana\<close>

text \<open>The long-vowel mark U+30FC and the hiragana vowels a, i and u.\<close>

definition LONG_VOWEL_MARK :: uchar where "LONG_VOWEL_MARK = 0x30FC"
definition HIRA_A :: uchar where "HIRA_A = 0x3042"
definition HIRA_I :: uchar where "HIRA_I = 0x3044"
definition HIRA_U :: uchar where "HIRA_U = 0x3046"

text \<open>
  The string literals of \<^verbatim>\<open>_get_vowel_for_long_mark\<close>, in the order of its branches:
  the a-row, i-row, u-row, e-row and o-row (voiced and half-voiced kana included), the
  small ya, yu, yo, and the small vowels a, i, u, e, o.
\<close>

definition A_ROW :: ustring where
  "A_ROW = [0x3042, 0x304B, 0x304C, 0x3055, 0x3056, 0x305F, 0x3060, 0x306A, 0x306F, 0x3070,
            0x3071, 0x307E, 0x3084, 0x3089, 0x308F]"

definition I_ROW :: ustring where
  "I_ROW = [0x3044, 0x304D, 0x304E, 0x3057, 0x3058, 0x3061, 0x3062, 0x306B, 0x3072, 0x3073,
            0x3074, 0x307F, 0x308A]"

definition U_ROW :: ustring where
  "U_ROW = [0x3046, 0x304F, 0x3050, 0x3059, 0x305A, 0x3064, 0x3065, 0x306C, 0x3075, 0x3076,
            0x3077, 0x3080, 0x3086, 0x308B]"

definition E_ROW :: ustring where
  "E_ROW = [0x3048, 0x3051, 0x3052, 0x305B, 0x305C, 0x3066, 0x3067, 0x306D, 0x3078, 0x3079,
            0x307A, 0x3081, 0x308C]"

definition O_ROW :: ustring where
  "O_ROW = [0x304A, 0x3053, 0x3054, 0x305D, 0x305E, 0x3068, 0x3069, 0x306E, 0x307B, 0x307C,
            0x307D, 0x3082, 0x3088, 0x308D, 0x3092]"

definition SMALL_YA_YU_YO :: ustring where
  "SMALL_YA_YU_YO = [0x3083, 0x3085, 0x3087]"

definition SMALL_VOWELS :: ustring where
  "SMALL_VOWELS = [0x3041, 0x3043, 0x3045, 0x3047, 0x3049]"

text \<open>
  \<^verbatim>\<open>FuriganaGenerator._get_vowel_for_long_mark(prev_char)\<close>. The dictionary of its
  last-but-one branch sends small a, i, u, e, o to a, i, u, i, u.
\<close>

definition get_vowel_for_long_mark :: "uchar \<Rightarrow> uchar" where
  "get_vowel_for_long_mark prev_char =
     (if prev_char \<in> set A_ROW then HIRA_A
      else if prev_char \<in> set I_ROW then HIRA_I
      else if prev_char \<in> set U_ROW then HIRA_U
      else if prev_char \<in> set E_ROW then HIRA_I
      else if prev_char \<in> set O_ROW then HIRA_U
      else if prev_char \<in> set SMALL_YA_YU_YO then HIRA_U
      else if prev_char \<in> set SMALL_VOWELS then
        (if prev_char = 0x3041 then HIRA_A
         else if prev_char = 0x3043 then HIRA_I
         else if prev_char = 0x3045 then HIRA_U
         else if prev_char = 0x3047 then HIRA_I
         else HIRA_U)
      else HIRA_U)"

text \<open>
  \<^verbatim>\<open>FuriganaGenerator._katakana_to_hiragana(text, preserve_long_vowel)\<close>: the loop
  \<^verbatim>\<open>for i, char in enumerate(text)\<close>, with the index \<open>i\<close> and the list \<open>result\<close> it
  appends to as the state.
\<close>

fun katakana_loop :: "bool \<Rightarrow> nat \<Rightarrow> ustring \<Rightarrow> ustring \<Rightarrow> ustring" where
  "katakana_loop preserve_long_vowel i result [] = result"
| "katakana_loop preserve_long_vowel i result (char # rest) =
     katakana_loop preserve_long_vowel (Suc i)
       (result @
         [if char = LONG_VOWEL_MARK then
            (if preserve_long_vowel then LONG_VOWEL_MARK
             else if i > 0 \<and> result \<noteq> [] then get_vowel_for_long_mark (last result)
             else LONG_VOWEL_MARK)
          else if 0x30A1 \<le> char \<and> char \<le> 0x30F6 then char - 0x60
          else char])
       rest"

definition katakana_to_hiragana :: "ustring \<Rightarrow> bool \<Rightarrow> ustring" where
  "katakana_to_hiragana text preserve_long_vowel = katakana_loop preserve_long_vowel 0 [] text"

text \<open>A string literal of the source that is plain ASCII, as code points.\<close>

definition ascii :: "string \<Rightarrow> ustring" where
  "ascii s = map of_char s"

text \<open>
  \<^verbatim>\<open>s.split(sep)\<close> for a separator of one character: the fields between the
  separators, one more than there are separators (so never the empty list).
\<close>

fun split_on :: "uchar \<Rightarrow> ustring \<Rightarrow> ustring list" where
  "split_on sep [] = [[]]"
| "split_on sep (c # cs) =
     (if c = sep then [] # split_on sep cs
      else (c # hd (split_on sep cs)) # tl (split_on sep cs))"

definition NEWLINE :: uchar where "NEWLINE = 0x0A"
definition TAB :: uchar where "TAB = 0x09"

section \<open>FuriganaAnnotator: \<^verbatim>\<open>furigana_helper.py\<close>, \<^verbatim>\<open>FuriganaGenerator.add_furigana\<close>\<close>

text \<open>
  \<^verbatim>\<open>N4_AND_LOWER_KANJI\<close>: the elementary kanji, in the order and with the repetitions
  of the list the source builds its set from.
\<close>

definition N4_AND_LOWER_KANJI :: "uchar list" where
  "N4_AND_LOWER_KANJI = [
     0x4E00, 0x4E8C, 0x4E09, 0x56DB, 0x4E94, 0x516D, 0x4E03, 0x516B, 0x4E5D, 0x5341,
     0x767E, 0x5343, 0x4E07, 0x65E5, 0x6708, 0x706B, 0x6C34, 0x6728, 0x91D1, 0x571F,
     0x5E74, 0x4ECA, 0x6BCE, 0x5148, 0x6765, 0x4F55, 0x6642, 0x5206, 0x534A, 0x4EBA,
     0x7537, 0x5973, 0x5B50, 0x5B66, 0x751F, 0x5148, 0x53CB, 0x79C1, 0x7236, 0x6BCD,
     0x5144, 0x59C9, 0x5F1F, 0x59B9, 0x5BB6, 0x65CF, 0x672C, 0x540D, 0x524D, 0x56FD,
     0x8A9E, 0x6587, 0x5B57, 0x4F1A, 0x793E, 0x8A71, 0x8AAD, 0x66F8, 0x898B, 0x805E,
     0x8A00, 0x98DF, 0x98F2, 0x884C, 0x6765, 0x5E30, 0x5165, 0x51FA, 0x4F1A, 0x4F11,
     0x7ACB, 0x5EA7, 0x6B69, 0x8D70, 0x4F5C, 0x4F7F, 0x50CD, 0x8CB7, 0x58F2, 0x5927,
     0x5C0F, 0x591A, 0x5C11, 0x9AD8, 0x5B89, 0x4F4E, 0x9577, 0x77ED, 0x65B0, 0x53E4,
     0x82E5, 0x660E, 0x6697, 0x767D, 0x9ED2, 0x8D64, 0x9752, 0x8272, 0x597D, 0x60AA,
     0x5143, 0x6C17, 0x6709, 0x7121, 0x4FBF, 0x5229, 0x4E0D, 0x6B63, 0x9593, 0x9055,
     0x53F3, 0x5DE6, 0x4E0A, 0x4E0B, 0x4E2D, 0x5916, 0x5185, 0x524D, 0x5F8C, 0x6771,
     0x897F, 0x5357, 0x5317, 0x8FD1, 0x9060, 0x5C71, 0x5DDD, 0x7530, 0x753A, 0x6751,
     0x5E02, 0x99C5, 0x6821, 0x5E97, 0x8ECA, 0x9053, 0x9580, 0x5BA4, 0x958B, 0x9589,
     0x5929, 0x96E8, 0x96EA, 0x82B1, 0x8349, 0x6728, 0x6797, 0x68EE, 0x72AC, 0x732B,
     0x9B5A, 0x9CE5, 0x8089, 0x7C73, 0x8336, 0x671D, 0x663C, 0x591C, 0x6669, 0x5348,
     0x65E9, 0x9045, 0x9031, 0x5186, 0x5EA6, 0x56DE, 0x756A, 0x65B9, 0x529B, 0x52C9,
     0x5F37, 0x601D, 0x77E5, 0x8003, 0x6559, 0x7FD2, 0x554F, 0x7B54, 0x5206, 0x7406,
     0x89E3, 0x540C, 0x610F, 0x5473, 0x7269, 0x54C1, 0x8005, 0x624B, 0x8DB3, 0x76EE,
     0x8033, 0x53E3, 0x4F53, 0x982D, 0x9854, 0x5FC3, 0x58F0, 0x96FB, 0x8A71, 0x5199,
     0x771F, 0x5207, 0x6301, 0x8CB8, 0x501F, 0x9001, 0x8FD4, 0x8D77, 0x5BDD, 0x7740,
     0x8131, 0x6D17, 0x5F85, 0x53D6, 0x4ED8, 0x59CB, 0x7D42, 0x4F4F, 0x5EA6]"

definition is_kanji :: "uchar \<Rightarrow> bool" where
  "is_kanji code \<longleftrightarrow> (0x4E00 \<le> code \<and> code \<le> 0x9FFF) \<or> (0x3400 \<le> code \<and> code \<le> 0x4DBF)"

definition is_n3_plus_kanji :: "uchar \<Rightarrow> bool" where
  "is_n3_plus_kanji char \<longleftrightarrow> is_kanji char \<and> char \<notin> set N4_AND_LOWER_KANJI"

definition has_any_n3_plus_kanji :: "ustring \<Rightarrow> bool" where
  "has_any_n3_plus_kanji s \<longleftrightarrow> list_ex is_n3_plus_kanji s"

text \<open>
  The generator object. \<^verbatim>\<open>self.tagger.parse\<close> is MeCab, outside the repository: it is
  a field of the record, a function from the text to the string MeCab prints (one line
  per token, the fields of a line separated by tabs, the surface first and the katakana
  reading second, and a last line \<^verbatim>\<open>EOS\<close>).
\<close>

record FuriganaGenerator =
  tagger_parse :: "ustring \<Rightarrow> ustring"
  name_dictionary :: "ustring \<rightharpoonup> ustring"
  preserve_long_vowel :: bool

text \<open>
  What \<^verbatim>\<open>add_furigana\<close> appends to \<^verbatim>\<open>result\<close>: the bare surface, or the surface
  with a reading, which \<open>render_span\<close> writes as the source's f-string does.
\<close>

datatype span = Plain ustring | Ruby ustring ustring


fun render_span :: "span \<Rightarrow> ustring" where
  "render_span (Plain surface) = surface"
| "render_span (Ruby surface reading) =
     ascii ''<ruby>'' @ surface @ ascii ''<rt>'' @ reading @ ascii ''</rt></ruby>''"

text \<open>
  The body of the loop \<^verbatim>\<open>for line in parsed.split('\\n')\<close> for one line: the spans it
  appends, none when the line is skipped.
\<close>

definition annotate_line :: "FuriganaGenerator \<Rightarrow> bool \<Rightarrow> ustring \<Rightarrow> span list" where
  "annotate_line g filter_n3_plus line =
     (if line = ascii ''EOS'' \<or> line = [] then []
      else
        let parts = split_on TAB line in
        if length parts < 2 then []
        else
          let surface = parts ! 0;
              has_kanji = list_ex is_kanji surface
          in
          if name_dictionary g surface \<noteq> None \<and> has_kanji then
            (let hiragana_reading = the (name_dictionary g surface) in
             if filter_n3_plus then
               (if has_any_n3_plus_kanji surface then [Ruby surface hiragana_reading]
                else [Plain surface])
             else [Ruby surface hiragana_reading])
          else if length parts \<ge> 2 \<and> parts ! 1 \<noteq> [] then
            (let reading = parts ! 1;
                 hiragana_reading = katakana_to_hiragana reading (preserve_long_vowel g)
             in
             if has_kanji then
               (if filter_n3_plus then
                  (if has_any_n3_plus_kanji surface then [Ruby surface hiragana_reading]
                   else [Plain surface])
                else [Ruby surface hiragana_reading])
             else [Plain surface])
          else [Plain surface])"

text \<open>
  \<^verbatim>\<open>add_furigana(text, filter_n3_plus)\<close>, first as the list of spans and then as the
  string the source returns. An empty or blank text is returned as it is.
\<close>

definition add_furigana_spans :: "FuriganaGenerator \<Rightarrow> ustring \<Rightarrow> bool \<Rightarrow> span list" where
  "add_furigana_spans g text filter_n3_plus =
     (if text = [] \<or> strip text = [] then [Plain text]
      else concat (map (annotate_line g filter_n3_plus) (split_on NEWLINE (tagger_parse g text))))"

definition add_furigana :: "FuriganaGenerator \<Rightarrow> ustring \<Rightarrow> bool \<Rightarrow> ustring" where
  "add_furigana g text filter_n3_plus =
     concat (map render_span (add_furigana_spans g text filter_n3_plus))"

text \<open>
  The tokens of the specification's tokenizer boundary, read off MeCab's output the way
  the loop reads them: one token per line that has a second field, with the first field
  as surface and the second as reading; an empty reading is an absent one.
\<close>

definition mecab_tokens :: "ustring \<Rightarrow> (ustring \<times> ustring) list" where
  "mecab_tokens parsed =
     map (\<lambda>parts. (parts ! 0, parts ! 1))
       (filter (\<lambda>parts. 2 \<le> length parts) (map (split_on TAB) (split_on NEWLINE parsed)))"



definition gen_plain :: FuriganaGenerator where
  "gen_plain = \<lparr>tagger_parse = (\<lambda>t. []), name_dictionary = Map.empty, preserve_long_vowel = False\<rparr>"

section \<open>VocabularyMerger: \<^verbatim>\<open>extract-ruby-smart.py\<close>\<close>

text \<open>
  The character classes of \<^verbatim>\<open>KANJI_PATTERN\<close> (U+4E00..U+9FAF and U+3400..U+4DBF) and
  of \<^verbatim>\<open>HIRAGANA_PATTERN\<close> (U+3040..U+309F and the long-vowel mark U+30FC), and the
  repetition mark U+3005.
\<close>

definition KANJI_PATTERN_smart :: "uchar \<Rightarrow> bool" where
  "KANJI_PATTERN_smart c \<longleftrightarrow> (0x4E00 \<le> c \<and> c \<le> 0x9FAF) \<or> (0x3400 \<le> c \<and> c \<le> 0x4DBF)"

definition HIRAGANA_PATTERN_class :: "uchar \<Rightarrow> bool" where
  "HIRAGANA_PATTERN_class c \<longleftrightarrow> (0x3040 \<le> c \<and> c \<le> 0x309F) \<or> c = 0x30FC"

definition REPETITION_MARK :: uchar where "REPETITION_MARK = 0x3005"

text \<open>
  \<^verbatim>\<open>HIRAGANA_PATTERN.match(trailing)\<close>: the pattern is anchored at the start and takes
  one or more characters of the class, greedily. The result is \<^verbatim>\<open>match.group(0)\<close>, and
  the empty string stands for no match (a match is never empty).
\<close>

definition HIRAGANA_PATTERN_match :: "ustring \<Rightarrow> ustring" where
  "HIRAGANA_PATTERN_match trailing = takeWhile HIRAGANA_PATTERN_class trailing"

text \<open>\<^verbatim>\<open>PARTICLES\<close> and \<^verbatim>\<open>VALID_OKURIGANA\<close>, in the order of the set displays.\<close>

definition PARTICLES :: "ustring list" where
  "PARTICLES = [
     [0x306F], [0x304C], [0x3092], [0x306B], [0x3067], [0x3068], [0x3082], [0x306E], [0x3078],
     [0x3084], [0x304B], [0x306D], [0x3088], [0x308F], [0x3070], [0x3089], [0x305C], [0x305E],
     [0x3055], [0x3088, 0x308A], [0x304B, 0x3089], [0x306A, 0x3069], [0x307E, 0x3067],
     [0x3060, 0x3051], [0x307B, 0x3069], [0x304F, 0x3089, 0x3044], [0x3070, 0x304B, 0x308A]]"

definition VALID_OKURIGANA :: "ustring list" where
  "VALID_OKURIGANA = [
     [0x3057, 0x3044], [0x304B, 0x3044], [0x304C, 0x3044], [0x3055, 0x3044], [0x306A, 0x3044],
     [0x3089, 0x3044], [0x3086, 0x3044], [0x304F, 0x3044], [0x3050, 0x3044], [0x304D],
     [0x3051], [0x3055], [0x307F], [0x3052], [0x308B], [0x304F], [0x3050], [0x3059], [0x3064],
     [0x306C], [0x3076], [0x3080], [0x3046], [0x3063, 0x305F], [0x3063, 0x3066],
     [0x3093, 0x3060], [0x3093, 0x3067], [0x3044, 0x305F], [0x3044, 0x3066], [0x3044, 0x3060],
     [0x3044, 0x3067], [0x3057, 0x305F], [0x3057, 0x3066], [0x304D, 0x305F], [0x304D, 0x3066],
     [0x307E, 0x3059], [0x307E, 0x305B, 0x3093], [0x307E, 0x3057, 0x305F],
     [0x307E, 0x3057, 0x3087, 0x3046], [0x308C, 0x308B], [0x3089, 0x308C, 0x308B],
     [0x305B, 0x308B], [0x3055, 0x305B, 0x308B], [0x306A, 0x3044],
     [0x306A, 0x304B, 0x3063, 0x305F], [0x306A, 0x304F], [0x305A], [0x305F, 0x3044],
     [0x305F, 0x304F], [0x3053, 0x3046], [0x305D, 0x3046], [0x3088, 0x3046], [0x307E, 0x3044],
     [0x3048, 0x308B], [0x3051, 0x308B], [0x305B, 0x308B], [0x3066, 0x308B], [0x306D, 0x308B],
     [0x3079, 0x308B], [0x3081, 0x308B], [0x308C, 0x308B], [0x3052, 0x308B], [0x3067, 0x308B],
     [0x3044, 0x308B], [0x304D, 0x308B], [0x3058, 0x308B], [0x3061, 0x308B], [0x306B, 0x308B],
     [0x3072, 0x308B], [0x3073, 0x308B], [0x307F, 0x308B], [0x308A, 0x308B], [0x308F, 0x308B],
     [0x3042, 0x308B], [0x3046, 0x308B], [0x304A, 0x308B], [0x3044], [0x304D], [0x3057],
     [0x3061], [0x308A], [0x3048], [0x308C], [0x3081], [0x305F], [0x3066], [0x3060], [0x3067],
     [0x305B], [0x3079], [0x3051], [0x3052], [0x306D], [0x307F], [0x3072], [0x3073], [0x304E],
     [0x3058], [0x3074], [0x3062], [0x308B], [0x304F], [0x3050], [0x3059], [0x3064], [0x306C],
     [0x3076], [0x3080], [0x3046]]"

record WordEntry =
  w_word :: ustring
  w_reading :: ustring
  w_source :: string
  w_note :: string

definition is_all_kanji :: "ustring \<Rightarrow> bool" where
  "is_all_kanji s \<longleftrightarrow>
     (if s = [] then False
      else list_all (\<lambda>c. KANJI_PATTERN_smart c \<or> c = REPETITION_MARK) s)"

text \<open>
  The parsed document. A ruby element is a node of its own, named by a number that stands
  for the identity of the Python object (\<^verbatim>\<open>id(ruby)\<close>); what it contains is kept in a
  store, from that number to the list of its children, because \<^verbatim>\<open>extract_ruby_base\<close>
  rearranges the children of the ruby element it is given. Inside a ruby element there
  are strings, \<^verbatim>\<open>rp\<close> elements (which hold a string), \<^verbatim>\<open>rt\<close> elements and other
  elements; a ruby element inside a ruby element is not part of the model.
\<close>

datatype inner = IText ustring | IRp ustring | IRt "inner list" | ITag string "inner list"

datatype snode = SText ustring | SRuby nat | STag string "snode list"

type_synonym ruby_store = "nat \<Rightarrow> inner list"

text \<open>\<^verbatim>\<open>get_text()\<close> of a list of children: all the strings below, in document order.\<close>

fun get_text :: "inner \<Rightarrow> ustring" where
  "get_text (IText s) = s"
| "get_text (IRp s) = s"
| "get_text (IRt cs) = concat (map get_text cs)"
| "get_text (ITag name cs) = concat (map get_text cs)"

text \<open>\<^verbatim>\<open>find('rt')\<close>: the first \<^verbatim>\<open>rt\<close> element below, in document order.\<close>

fun find_rt :: "inner list \<Rightarrow> inner option" where
  "find_rt [] = None"
| "find_rt (IText s # rest) = find_rt rest"
| "find_rt (IRp s # rest) = find_rt rest"
| "find_rt (IRt cs # rest) = Some (IRt cs)"
| "find_rt (ITag name cs # rest) =
     (case find_rt cs of Some r \<Rightarrow> Some r | None \<Rightarrow> find_rt rest)"

text \<open>\<^verbatim>\<open>for rp in ruby_tag.find_all('rp'): rp.decompose()\<close>: every \<^verbatim>\<open>rp\<close> below is removed.\<close>

fun decompose_rp :: "inner list \<Rightarrow> inner list" where
  "decompose_rp [] = []"
| "decompose_rp (IText s # rest) = IText s # decompose_rp rest"
| "decompose_rp (IRp s # rest) = decompose_rp rest"
| "decompose_rp (IRt cs # rest) = IRt (decompose_rp cs) # decompose_rp rest"
| "decompose_rp (ITag name cs # rest) = ITag name (decompose_rp cs) # decompose_rp rest"

text \<open>\<^verbatim>\<open>rt.extract()\<close> for the first \<^verbatim>\<open>rt\<close> below: the children without it.\<close>

fun extract_rt :: "inner list \<Rightarrow> inner list" where
  "extract_rt [] = []"
| "extract_rt (IText s # rest) = IText s # extract_rt rest"
| "extract_rt (IRp s # rest) = IRp s # extract_rt rest"
| "extract_rt (IRt cs # rest) = rest"
| "extract_rt (ITag name cs # rest) =
     (case find_rt cs of
        Some r \<Rightarrow> ITag name (extract_rt cs) # rest
      | None \<Rightarrow> ITag name cs # extract_rt rest)"

text \<open>
  \<^verbatim>\<open>extract_ruby_base(ruby_tag)\<close> on the children of the ruby element: the pair of base
  and reading, and the children as the call leaves them (no \<^verbatim>\<open>rp\<close>, and the first
  \<^verbatim>\<open>rt\<close> moved to the end). The reading is taken before the \<^verbatim>\<open>rp\<close> elements are
  removed, the base after.
\<close>

definition ruby_base :: "inner list \<Rightarrow> (ustring \<times> ustring) \<times> inner list" where
  "ruby_base children =
     (case find_rt children of
        None \<Rightarrow> (([], []), children)
      | Some rt \<Rightarrow>
          let rd = strip (get_text rt);
              children1 = decompose_rp children;
              rt_copy = the (find_rt children1);
              children2 = extract_rt children1;
              base = strip (concat (map get_text children2))
          in ((base, rd), children2 @ [rt_copy]))"

definition extract_ruby_base :: "ruby_store \<Rightarrow> nat \<Rightarrow> (ustring \<times> ustring) \<times> ruby_store" where
  "extract_ruby_base store ruby =
     (let (res, children') = ruby_base (store ruby) in (res, store(ruby := children')))"

text \<open>
  \<^verbatim>\<open>get_next_sibling_ruby(element)\<close> on the siblings that follow the element: the next
  ruby element and the siblings that follow it. The Python loop \<^verbatim>\<open>while sibling:\<close> also
  stops at an empty string, which is false in Python.
\<close>

fun get_next_sibling_ruby :: "snode list \<Rightarrow> (nat \<times> snode list) option" where
  "get_next_sibling_ruby [] = None"
| "get_next_sibling_ruby (SText s # rest) =
     (if s = [] then None
      else if strip s = [] then get_next_sibling_ruby rest
      else None)"
| "get_next_sibling_ruby (SRuby r # rest) = Some (r, rest)"
| "get_next_sibling_ruby (STag name cs # rest) = None"

fun get_trailing_text :: "snode list \<Rightarrow> ustring" where
  "get_trailing_text (SText s # rest) = s"
| "get_trailing_text siblings = []"

lemma get_next_sibling_ruby_shorter:
  "get_next_sibling_ruby siblings = Some (r, rest) \<Longrightarrow> length rest < length siblings"
  by (induction siblings rule: get_next_sibling_ruby.induct) (auto split: if_splits)

text \<open>
  Heuristic 1, the loop \<^verbatim>\<open>while True\<close> of the compound merge. The state is the store,
  the set \<^verbatim>\<open>processed_rubies\<close>, \<^verbatim>\<open>base\<close> and \<^verbatim>\<open>reading\<close>, and \<^verbatim>\<open>current_ruby\<close>,
  which is given by the siblings that follow it.
\<close>

function compound_merge ::
  "ruby_store \<Rightarrow> nat set \<Rightarrow> ustring \<Rightarrow> ustring \<Rightarrow> snode list \<Rightarrow>
   ruby_store \<times> nat set \<times> ustring \<times> ustring \<times> snode list" where
  "compound_merge store processed base rd siblings =
     (case get_next_sibling_ruby siblings of
        None \<Rightarrow> (store, processed, base, rd, siblings)
      | Some (next_ruby, next_siblings) \<Rightarrow>
          (case extract_ruby_base store next_ruby of
             ((next_base, next_reading), store') \<Rightarrow>
               if is_all_kanji base \<and> is_all_kanji next_base then
                 compound_merge store' (insert next_ruby processed)
                   (base @ next_base) (rd @ next_reading) next_siblings
               else (store', processed, base, rd, siblings)))"
  by pat_completeness auto
termination
  by (relation "measure (\<lambda>(store, processed, base, rd, siblings). length siblings)")
     (auto dest: get_next_sibling_ruby_shorter)

declare compound_merge.simps [simp del]

text \<open>
  Heuristic 2. The loop \<^verbatim>\<open>for i in range(min(len(candidate), 4), 1, -1)\<close>, which tries
  the prefixes of 4, 3 and 2 characters and stops at the first that is in the table; the
  result is \<^verbatim>\<open>found_suffix\<close>, empty when none is.
\<close>

fun find_suffix_loop :: "ustring \<Rightarrow> nat \<Rightarrow> ustring" where
  "find_suffix_loop candidate i =
     (if i > 1 then
        (if take i candidate \<in> set VALID_OKURIGANA then take i candidate
         else find_suffix_loop candidate (i - 1))
      else [])"

declare find_suffix_loop.simps [simp del]

text \<open>
  The whole of heuristic 2 for a trailing text and a base: the suffix to append to base
  and reading, empty when there is none.
\<close>

definition capture_okurigana :: "ustring \<Rightarrow> ustring \<Rightarrow> ustring" where
  "capture_okurigana trailing base =
     (let okurigana = HIRAGANA_PATTERN_match trailing in
      if okurigana = [] then []
      else
        let candidate = take 4 okurigana;
            found_suffix = find_suffix_loop candidate (min (length candidate) 4)
        in
        if found_suffix = [] \<and> length candidate \<ge> 1 then
          (let char = [candidate ! 0] in
           if char \<in> set VALID_OKURIGANA \<and> char \<notin> set PARTICLES then char
           else if char = [0x3046] \<and> base \<noteq> [] \<and> last base \<in> set [0x3053, 0x305D, 0x3088, 0x308D]
           then char
           else found_suffix)
        else found_suffix)"

text \<open>
  The state of the loop \<^verbatim>\<open>for ruby in rubies\<close>: the store, \<^verbatim>\<open>processed_rubies\<close>, and
  the dictionary \<^verbatim>\<open>words\<close> in insertion order.
\<close>

record extract_state =
  store :: ruby_store
  processed_rubies :: "nat set"
  words :: "(ustring \<times> WordEntry) list"

definition add_word :: "ustring \<Rightarrow> ustring \<Rightarrow> (ustring \<times> WordEntry) list \<Rightarrow> (ustring \<times> WordEntry) list" where
  "add_word base rd ws =
     (if base \<noteq> rd then
        (if base \<notin> set (map fst ws)
         then ws @ [(base, \<lparr>w_word = base, w_reading = rd, w_source = ''epub'', w_note = ''''\<rparr>)]
         else ws)
      else ws)"

text \<open>The body of the loop for one ruby element, given with the siblings that follow it.\<close>

definition process_ruby :: "extract_state \<Rightarrow> nat \<times> snode list \<Rightarrow> extract_state" where
  "process_ruby st rs =
     (case rs of (ruby, siblings) \<Rightarrow>
        if ruby \<in> processed_rubies st then st
        else
          (case extract_ruby_base (store st) ruby of
             ((base, rd), store1) \<Rightarrow>
               if base = [] \<or> rd = [] then st\<lparr>store := store1\<rparr>
               else if startswith base [REPETITION_MARK] then st\<lparr>store := store1\<rparr>
               else
                 (case compound_merge store1 (insert ruby (processed_rubies st)) base rd siblings of
                    (store2, processed2, base2, rd2, current_siblings) \<Rightarrow>
                      let trailing = get_trailing_text current_siblings;
                          found_suffix = capture_okurigana trailing base2;
                          base3 = (if found_suffix \<noteq> [] then base2 @ found_suffix else base2);
                          rd3 = (if found_suffix \<noteq> [] then rd2 @ found_suffix else rd2)
                      in \<lparr>store = store2, processed_rubies = processed2,
                          words = add_word base3 rd3 (words st)\<rparr>)))"

text \<open>
  \<^verbatim>\<open>soup.find_all('ruby')\<close>: the ruby elements in document order, each with the siblings
  that follow it (what \<^verbatim>\<open>next_sibling\<close> walks through).
\<close>

fun find_all_ruby :: "snode list \<Rightarrow> (nat \<times> snode list) list" where
  "find_all_ruby [] = []"
| "find_all_ruby (SText s # rest) = find_all_ruby rest"
| "find_all_ruby (SRuby r # rest) = (r, rest) # find_all_ruby rest"
| "find_all_ruby (STag name cs # rest) = find_all_ruby cs @ find_all_ruby rest"

definition extract_words_from_html :: "snode list \<Rightarrow> ruby_store \<Rightarrow> (ustring \<times> WordEntry) list" where
  "extract_words_from_html soup contents =
     words (foldl process_ruby
              \<lparr>store = contents, processed_rubies = {}, words = []\<rparr> (find_all_ruby soup))"



section \<open>NameDictionaryBuilder: \<^verbatim>\<open>extract_ruby_dictionary\<close> and the loop that calls it\<close>

text \<open>
  The tree BeautifulSoup parses from a document: a string, or an element with its name,
  its attributes and its children.
\<close>

datatype node = NavigableString ustring | Tag string "(string \<times> ustring) list" "node list"

text \<open>
  \<^verbatim>\<open>find_all(names)\<close> on a list of children: the elements below whose name is one of
  \<open>names\<close>, in document order, an element before the elements inside it.
\<close>

fun find_all :: "string list \<Rightarrow> node list \<Rightarrow> node list" where
  "find_all names [] = []"
| "find_all names (NavigableString s # rest) = find_all names rest"
| "find_all names (Tag name attrs cs # rest) =
     (if name \<in> set names then [Tag name attrs cs] else []) @
     find_all names cs @ find_all names rest"

text \<open>\<^verbatim>\<open>get_text()\<close>: the strings below a node, concatenated in document order.\<close>

fun node_text :: "node \<Rightarrow> ustring" where
  "node_text (NavigableString s) = s"
| "node_text (Tag name attrs cs) = concat (map node_text cs)"

text \<open>
  \<^verbatim>\<open>''.join(ruby_tag.find_all(text=True, recursive=False))\<close>: the strings that are
  children of the element itself.
\<close>

fun direct_text :: "node list \<Rightarrow> ustring" where
  "direct_text [] = []"
| "direct_text (NavigableString s # rest) = s @ direct_text rest"
| "direct_text (Tag name attrs cs # rest) = direct_text rest"

text \<open>
  A \<^verbatim>\<open>Counter\<close> keeps its keys in the order of their first insertion:
  \<^verbatim>\<open>frequency[key] += 1\<close> on an association list in that order.
\<close>

fun counter_incr :: "'k \<Rightarrow> ('k \<times> nat) list \<Rightarrow> ('k \<times> nat) list" where
  "counter_incr key [] = [(key, 1)]"
| "counter_incr key ((k, n) # rest) =
     (if k = key then (k, Suc n) # rest else (k, n) # counter_incr key rest)"

text \<open>
  The pair a ruby element contributes, if any: none when it has no \<^verbatim>\<open>rt\<close>, or when
  the base text or the reading is empty. Nothing here compares base and reading.
\<close>

fun ruby_pair :: "node \<Rightarrow> (ustring \<times> ustring) option" where
  "ruby_pair (NavigableString s) = None"
| "ruby_pair (Tag name attrs cs) =
     (case find_all [''rt''] cs of
        [] \<Rightarrow> None
      | rt_tag # others \<Rightarrow>
          let base_text = direct_text cs;
              rd = node_text rt_tag
          in if base_text \<noteq> [] \<and> rd \<noteq> [] then Some (base_text, rd) else None)"

text \<open>The body of \<^verbatim>\<open>for ruby_tag in soup.find_all('ruby')\<close> on the counter.\<close>

definition count_ruby ::
  "((ustring \<times> ustring) \<times> nat) list \<Rightarrow> node \<Rightarrow> ((ustring \<times> ustring) \<times> nat) list" where
  "count_ruby frequency ruby_tag =
     (case ruby_pair ruby_tag of
        None \<Rightarrow> frequency
      | Some key \<Rightarrow> counter_incr key frequency)"

text \<open>
  \<^verbatim>\<open>max(readings_for_base, key=lambda x: x[1])\<close>: Python's \<^verbatim>\<open>max\<close> keeps the first
  of the items with the greatest key.
\<close>

definition py_max_count :: "('a \<times> nat) list \<Rightarrow> 'a \<times> nat" where
  "py_max_count xs = foldl (\<lambda>m x. if snd m < snd x then x else m) (hd xs) (tl xs)"

text \<open>
  \<^verbatim>\<open>extract_ruby_dictionary(html_content)\<close> on the parsed document. The dictionary
  \<^verbatim>\<open>final_dict\<close> has a key for every base text of the counter, and for it the reading
  that \<^verbatim>\<open>max\<close> picks among the readings counted for that base text.
\<close>

definition extract_ruby_dictionary :: "node list \<Rightarrow> (ustring \<rightharpoonup> ustring)" where
  "extract_ruby_dictionary soup =
     (let frequency = foldl count_ruby [] (find_all [''ruby''] soup);
          base_texts = set (map (\<lambda>((base, rd), count). base) frequency)
      in (\<lambda>base_text.
            if base_text \<in> base_texts then
              (let readings_for_base =
                     map (\<lambda>((b, rd), count). (rd, count))
                       (filter (\<lambda>((b, rd), count). b = base_text) frequency)
               in if readings_for_base \<noteq> [] then Some (fst (py_max_count readings_for_base))
                  else None)
            else None))"

text \<open>
  Pass 1 of \<^verbatim>\<open>process_epub_to_text\<close>: the dictionaries of the documents of the book
  are merged with \<^verbatim>\<open>name_dictionary.update(chapter_dict)\<close>, one after the other. A
  document that cannot be decoded or parsed raises, and is skipped: it is \<open>None\<close> here.
\<close>

definition build_name_dictionary :: "node list option list \<Rightarrow> (ustring \<rightharpoonup> ustring)" where
  "build_name_dictionary documents =
     foldl (\<lambda>name_dictionary item.
              case item of
                None \<Rightarrow> name_dictionary
              | Some soup \<Rightarrow> name_dictionary ++ extract_ruby_dictionary soup)
       Map.empty documents"

text \<open>
  The pairs a document contributes, in document order, and the place where a pair is
  first seen among them.
\<close>

definition ruby_pairs :: "node list \<Rightarrow> (ustring \<times> ustring) list" where
  "ruby_pairs soup = List.map_filter ruby_pair (find_all [''ruby''] soup)"

definition first_seen :: "'a list \<Rightarrow> 'a \<Rightarrow> nat" where
  "first_seen xs x = length (takeWhile (\<lambda>y. y \<noteq> x) xs)"

text \<open>
  Example documents: a ruby element with base and reading, and documents with the kanji
  U+795E read ka-mi twice, read shi-n once, and the kana U+3042 annotated with itself.
\<close>

definition ruby_elem :: "ustring \<Rightarrow> ustring \<Rightarrow> node" where
  "ruby_elem base rd = Tag ''ruby'' [] [NavigableString base, Tag ''rt'' [] [NavigableString rd]]"

definition doc_kami_twice :: "node list" where
  "doc_kami_twice = [Tag ''p'' [] [ruby_elem [0x795E] [0x304B, 0x307F], NavigableString [0x3068],
                                  ruby_elem [0x795E] [0x304B, 0x307F]]]"

definition doc_shin_once :: "node list" where
  "doc_shin_once = [Tag ''p'' [] [ruby_elem [0x795E] [0x3057, 0x3093]]]"

definition doc_a_a :: "node list" where
  "doc_a_a = [Tag ''p'' [] [ruby_elem [0x3042] [0x3042]]]"

definition doc_kami_shin_kami :: "node list" where
  "doc_kami_shin_kami =
     [Tag ''p'' [] [ruby_elem [0x795E] [0x304B, 0x307F], ruby_elem [0x795E] [0x3057, 0x3093],
                   ruby_elem [0x795E] [0x304B, 0x307F]]]"

section \<open>\<^verbatim>\<open>extract-all-ruby.py\<close>: the unfiltered extraction\<close>

text \<open>
  \<^verbatim>\<open>extract_all_ruby_from_epub\<close>, on documents parsed as for \<^verbatim>\<open>extract-ruby-smart.py\<close>
  (the two scripts take a ruby element apart with the same statements). The body of the
  loop over the ruby elements of a document, on the store and the dictionary
  \<^verbatim>\<open>all_pairs\<close> in insertion order:
\<close>

definition all_ruby_step ::
  "ruby_store \<times> (ustring \<times> ustring) list \<Rightarrow> nat \<Rightarrow> ruby_store \<times> (ustring \<times> ustring) list" where
  "all_ruby_step state ruby =
     (case state of (contents, all_pairs) \<Rightarrow>
        (case find_rt (contents ruby) of
           None \<Rightarrow> (contents, all_pairs)
         | Some rt \<Rightarrow>
             let rd = strip (get_text rt) in
             if rd = [] then (contents, all_pairs)
             else
               let children1 = decompose_rp (contents ruby);
                   rt_copy = the (find_rt children1);
                   children2 = extract_rt children1;
                   kanji = strip (concat (map get_text children2));
                   contents' = contents(ruby := children2 @ [rt_copy])
               in
               if kanji \<noteq> [] \<and> rd \<noteq> [] \<and> kanji \<noteq> rd then
                 (if kanji \<notin> set (map fst all_pairs) then (contents', all_pairs @ [(kanji, rd)])
                  else (contents', all_pairs))
               else (contents', all_pairs)))"

text \<open>
  The loop over the documents of the book. A document whose decoding or parsing raises
  is skipped by the \<^verbatim>\<open>except\<close> clause: it is \<open>None\<close> here.
\<close>

definition extract_all_ruby_from_epub ::
  "(snode list \<times> ruby_store) option list \<Rightarrow> (ustring \<times> ustring) list" where
  "extract_all_ruby_from_epub items =
     foldl (\<lambda>all_pairs item.
              case item of
                None \<Rightarrow> all_pairs
              | Some (soup, contents) \<Rightarrow>
                  snd (foldl all_ruby_step (contents, all_pairs) (map fst (find_all_ruby soup))))
       [] items"

section \<open>LineRepair: \<^verbatim>\<open>utils/fix-ruby-newlines.py\<close>\<close>

text \<open>
  The character classes of the five regular expressions, and the expressions themselves
  as predicates on the string they are matched against. \<^verbatim>\<open>$\<close> matches at the end of
  the string and also just before a newline that ends the string.
\<close>

definition kanji_class :: "uchar \<Rightarrow> bool" where
  "kanji_class c \<longleftrightarrow> (0x4E00 \<le> c \<and> c \<le> 0x9FAF) \<or> (0x3400 \<le> c \<and> c \<le> 0x4DBF)"

definition hiragana_class :: "uchar \<Rightarrow> bool" where
  "hiragana_class c \<longleftrightarrow> 0x3040 \<le> c \<and> c \<le> 0x309F"

definition kanji_1_3 :: "ustring \<Rightarrow> bool" where
  "kanji_1_3 s \<longleftrightarrow> 1 \<le> length s \<and> length s \<le> 3 \<and> list_all kanji_class s"

definition KANJI_PATTERN :: "ustring \<Rightarrow> bool" where
  "KANJI_PATTERN s \<longleftrightarrow> kanji_1_3 s \<or> (s \<noteq> [] \<and> last s = NEWLINE \<and> kanji_1_3 (butlast s))"

definition KANJI_START :: "ustring \<Rightarrow> bool" where
  "KANJI_START s \<longleftrightarrow> s \<noteq> [] \<and> kanji_class (hd s)"

definition KANJI_END :: "ustring \<Rightarrow> bool" where
  "KANJI_END s \<longleftrightarrow>
     (s \<noteq> [] \<and> kanji_class (last s)) \<or>
     (s \<noteq> [] \<and> last s = NEWLINE \<and> butlast s \<noteq> [] \<and> kanji_class (last (butlast s)))"

definition HIRAGANA_START :: "ustring \<Rightarrow> bool" where
  "HIRAGANA_START s \<longleftrightarrow> s \<noteq> [] \<and> hiragana_class (hd s)"

text \<open>
  The tuples of the two predicates: the closing punctuation, the sentence ends, and the
  markup markers (the less-than and greater-than signs, ASCII and full-width; the third
  rule adds the string of two greater-than signs).
\<close>

definition punctuation :: "ustring list" where
  "punctuation = [[0x3002], [0x3001], [0x300D], [0x300F], [0xFF09], [0x29], [0xFF01], [0xFF1F],
                  [0x2026], [0x2015]]"

definition sentence_end :: "ustring list" where
  "sentence_end = [[0x3002], [0x300D], [0x300F], [0xFF09], [0x29], [0xFF01], [0xFF1F]]"

definition markers :: "ustring list" where
  "markers = [[0x3C], [0x3E], [0xFF1C], [0xFF1E]]"

definition should_merge_with_next :: "ustring \<Rightarrow> ustring \<Rightarrow> bool" where
  "should_merge_with_next current_line next_line =
     (let current = strip current_line;
          next_l = strip next_line
      in
      if current = [] \<or> next_l = [] then False
      else if KANJI_PATTERN current \<and> (HIRAGANA_START next_l \<or> KANJI_PATTERN next_l) then True
      else if KANJI_PATTERN next_l \<and> \<not> endswith_any current punctuation \<and>
              \<not> startswith_any next_l markers then True
      else if KANJI_END current \<and> HIRAGANA_START next_l \<and>
              \<not> startswith_any next_l (markers @ [[0x3E, 0x3E]]) then True
      else if \<not> endswith_any current sentence_end \<and> KANJI_PATTERN next_l \<and>
              \<not> startswith_any next_l markers then True
      else if endswith current [0x3001] \<and> KANJI_START next_l \<and>
              \<not> startswith_any next_l markers then True
      else False)"

definition should_merge_with_prev :: "ustring \<Rightarrow> ustring \<Rightarrow> bool" where
  "should_merge_with_prev prev_line current_line =
     (let prev = strip prev_line;
          current = strip current_line
      in
      if prev = [] \<or> current = [] then False
      else if KANJI_PATTERN current \<and> prev \<noteq> [] \<and> \<not> endswith_any prev punctuation \<and>
              \<not> startswith_any current markers then True
      else False)"

text \<open>
  The inner loop \<^verbatim>\<open>while i + 1 < len(lines) and should_merge_with_next(...)\<close>: the
  state is \<^verbatim>\<open>current_line\<close>, the lines after index \<open>i\<close>, and \<^verbatim>\<open>changed\<close>.
\<close>

fun merge_with_next :: "ustring \<Rightarrow> ustring list \<Rightarrow> bool \<Rightarrow> ustring \<times> ustring list \<times> bool" where
  "merge_with_next current_line [] changed = (current_line, [], changed)"
| "merge_with_next current_line (next_line # rest) changed =
     (if should_merge_with_next current_line next_line
      then merge_with_next (rstrip current_line @ strip next_line) rest True
      else (current_line, next_line # rest, changed))"

lemma merge_with_next_length:
  "merge_with_next current_line rest changed = (c, rest', ch) \<Longrightarrow> length rest' \<le> length rest"
proof (induction rest arbitrary: current_line changed)
  case Nil
  then show ?case by simp
next
  case (Cons next_line rest)
  show ?case
  proof (cases "should_merge_with_next current_line next_line")
    case True
    with Cons.prems have "merge_with_next (rstrip current_line @ strip next_line) rest True = (c, rest', ch)"
      by simp
    from Cons.IH [OF this] show ?thesis by simp
  next
    case False
    with Cons.prems show ?thesis by simp
  qed
qed

text \<open>
  One pass, the loop \<^verbatim>\<open>while i < len(lines)\<close>: the state is the index \<open>i\<close>, the lines
  from index \<open>i\<close> on, \<^verbatim>\<open>result\<close> and \<^verbatim>\<open>changed\<close>.
\<close>

function pass_loop :: "nat \<Rightarrow> ustring list \<Rightarrow> ustring list \<Rightarrow> bool \<Rightarrow> ustring list \<times> bool" where
  "pass_loop i [] result changed = (result, changed)"
| "pass_loop i (current_line # rest) result changed =
     (if i > 0 \<and> result \<noteq> [] \<and> should_merge_with_prev (last result) current_line then
        pass_loop (i + 1) rest (butlast result @ [last result @ strip current_line]) True
      else
        (case merge_with_next current_line rest changed of
           (current_line', rest', changed') \<Rightarrow>
             pass_loop (i + (length rest - length rest') + 1) rest'
               (result @ [current_line']) changed'))"
  by pat_completeness auto
termination
  by (relation "measure (\<lambda>(i, remaining, result, changed). length remaining)")
     (auto dest!: merge_with_next_length [OF sym])

declare pass_loop.simps [simp del]

text \<open>
  The loop \<^verbatim>\<open>for _ in range(max_passes)\<close>, which stops at the first pass that merges
  nothing, and the function itself, with \<^verbatim>\<open>max_passes = 5\<close>.
\<close>

fun fix_passes :: "nat \<Rightarrow> ustring list \<Rightarrow> ustring list" where
  "fix_passes 0 lines = lines"
| "fix_passes (Suc n) lines =
     (case pass_loop 0 lines [] False of
        (result, changed) \<Rightarrow> if \<not> changed then result else fix_passes n result)"

fun join_lines :: "ustring list \<Rightarrow> ustring" where
  "join_lines [] = []"
| "join_lines [l] = l"
| "join_lines (l # l' # ls) = l @ NEWLINE # join_lines (l' # ls)"

definition fix_ruby_newlines :: "ustring \<Rightarrow> ustring" where
  "fix_ruby_newlines content = join_lines (fix_passes 5 (split_on NEWLINE content))"

text \<open>No merge rule applies between two lines, forward or backward.\<close>

definition no_merge :: "ustring \<Rightarrow> ustring \<Rightarrow> bool" where
  "no_merge a b \<longleftrightarrow> \<not> should_merge_with_next a b \<and> \<not> should_merge_with_prev a b"

text \<open>A list of lines none of which merges forward with the line after it.\<close>

abbreviation stable :: "ustring list \<Rightarrow> bool" where
  "stable ls \<equiv> successively (\<lambda>a b. \<not> should_merge_with_next a b) ls"

section \<open>MarkupWalker: \<^verbatim>\<open>furigana_helper.py\<close>, \<^verbatim>\<open>preserve_existing_ruby\<close>\<close>

text \<open>
  \<^verbatim>\<open>element.decompose()\<close> for every element that
  \<^verbatim>\<open>soup.find_all(['nav', 'script', 'style', 'meta', 'link'])\<close> finds: these elements
  are removed wherever they are, with all they contain.
\<close>

definition non_content :: "string list" where
  "non_content = [''nav'', ''script'', ''style'', ''meta'', ''link'']"

fun decompose_all :: "string list \<Rightarrow> node list \<Rightarrow> node list" where
  "decompose_all names [] = []"
| "decompose_all names (NavigableString s # rest) = NavigableString s # decompose_all names rest"
| "decompose_all names (Tag name attrs cs # rest) =
     (if name \<in> set names then decompose_all names rest
      else Tag name attrs (decompose_all names cs) # decompose_all names rest)"

text \<open>The decimal digits of a number, as \<^verbatim>\<open>f'{image_counter}'\<close> writes them.\<close>

function decimal :: "nat \<Rightarrow> ustring" where
  "decimal n = (if n < 10 then [0x30 + n] else decimal (n div 10) @ [0x30 + n mod 10])"
  by pat_completeness auto
termination
  by (relation "measure id") auto

declare decimal.simps [simp del]

text \<open>
  The placeholder of the image with the given attributes, the \<open>image_counter\<close>-th image
  of the document: the last component of the path in its \<^verbatim>\<open>src\<close> attribute, or
  \<^verbatim>\<open>image-\<close> and the counter when it has no \<^verbatim>\<open>src\<close> or an empty one.
\<close>

definition image_placeholder :: "(string \<times> ustring) list \<Rightarrow> nat \<Rightarrow> ustring" where
  "image_placeholder attrs image_counter =
     (let img_src = (case map_of attrs ''src'' of None \<Rightarrow> [] | Some v \<Rightarrow> v);
          img_filename = (if img_src \<noteq> [] then last (split_on 0x2F img_src)
                          else ascii ''image-'' @ decimal image_counter)
      in [NEWLINE] @ ascii ''[IMAGE:'' @ img_filename @ ascii '']'' @ [NEWLINE])"

text \<open>
  The loop \<^verbatim>\<open>for img_tag in soup.find_all('img')\<close>: every image is replaced by the
  string of its placeholder, in document order, the counter going up by one at each. The
  counter is passed along and returned. An \<^verbatim>\<open>img\<close> element has no children in a parsed
  document.
\<close>

fun replace_images :: "nat \<Rightarrow> node list \<Rightarrow> node list \<times> nat" where
  "replace_images image_counter [] = ([], image_counter)"
| "replace_images image_counter (NavigableString s # rest) =
     (case replace_images image_counter rest of
        (rest', k) \<Rightarrow> (NavigableString s # rest', k))"
| "replace_images image_counter (Tag name attrs cs # rest) =
     (if name = ''img'' then
        (case replace_images (image_counter + 1) rest of
           (rest', k) \<Rightarrow>
             (NavigableString (image_placeholder attrs (image_counter + 1)) # rest', k))
      else
        (case replace_images image_counter cs of
           (cs', k) \<Rightarrow>
             (case replace_images k rest of
                (rest', k') \<Rightarrow> (Tag name attrs cs' # rest', k'))))"

text \<open>
  \<^verbatim>\<open>extract_text_with_ruby(element)\<close> on the children of the element. Two things come
  from outside the repository and are parameters: \<open>str_of\<close>, which is \<^verbatim>\<open>str(child)\<close>,
  the serializer of BeautifulSoup, and the generator \<open>g\<close>, whose tokenizer is MeCab.
\<close>

definition block_names :: "string list" where
  "block_names = [''p'', ''h1'', ''h2'', ''h3'', ''h4'', ''h5'', ''h6'']"

definition container_names :: "string list" where
  "container_names = [''p'', ''div'', ''span'', ''h1'', ''h2'', ''h3'', ''h4'', ''h5'', ''h6'']"

fun extract_text_with_ruby ::
  "(node \<Rightarrow> ustring) \<Rightarrow> FuriganaGenerator \<Rightarrow> bool \<Rightarrow> node list \<Rightarrow> ustring" where
  "extract_text_with_ruby str_of g filter_n3_plus [] = []"
| "extract_text_with_ruby str_of g filter_n3_plus (NavigableString s # rest) =
     (let txt = strip s in
      if txt \<noteq> [] then add_furigana g txt filter_n3_plus else []) @
     extract_text_with_ruby str_of g filter_n3_plus rest"
| "extract_text_with_ruby str_of g filter_n3_plus (Tag name attrs cs # rest) =
     (if name = ''ruby'' then str_of (Tag name attrs cs)
      else if name = ''rt'' then []
      else if name \<in> set container_names then
        (let content = extract_text_with_ruby str_of g filter_n3_plus cs in
         if strip content \<noteq> [] then
           (if name \<in> set block_names then [NEWLINE] @ content @ [NEWLINE] else content)
         else [])
      else if name = ''br'' then [NEWLINE]
      else
        (let content = extract_text_with_ruby str_of g filter_n3_plus cs in
         if strip content \<noteq> [] then content else [])) @
     extract_text_with_ruby str_of g filter_n3_plus rest"

text \<open>
  \<^verbatim>\<open>re.sub(r'\n{3,}', '\n\n', text)\<close>: every maximal run of three or more newlines
  becomes two newlines. The number \<open>n\<close> counts the newlines of the run being read.
\<close>

fun collapse_newlines :: "nat \<Rightarrow> ustring \<Rightarrow> ustring" where
  "collapse_newlines n [] = replicate (min n 2) NEWLINE"
| "collapse_newlines n (c # cs) =
     (if c = NEWLINE then collapse_newlines (Suc n) cs
      else replicate (min n 2) NEWLINE @ c # collapse_newlines 0 cs)"

definition preserve_existing_ruby ::
  "(node \<Rightarrow> ustring) \<Rightarrow> node list \<Rightarrow> FuriganaGenerator \<Rightarrow> bool \<Rightarrow> ustring" where
  "preserve_existing_ruby str_of soup g filter_n3_plus =
     (let soup1 = decompose_all non_content soup;
          soup2 = fst (replace_images 0 soup1);
          txt = extract_text_with_ruby str_of g filter_n3_plus soup2
      in strip (collapse_newlines 0 txt))"

text \<open>
  The ruby elements the traversal comes to, in document order: those that are not inside
  another ruby element or an \<^verbatim>\<open>rt\<close> or \<^verbatim>\<open>br\<close> element.
\<close>

fun reached_rubies :: "node list \<Rightarrow> node list" where
  "reached_rubies [] = []"
| "reached_rubies (NavigableString s # rest) = reached_rubies rest"
| "reached_rubies (Tag name attrs cs # rest) =
     (if name = ''ruby'' then [Tag name attrs cs]
      else if name = ''rt'' \<or> name = ''br'' then []
      else reached_rubies cs) @
     reached_rubies rest"

text \<open>
  What the traversal appends, piece by piece: the serialization of a ruby element, the
  annotator's output for a text, or a newline. \<open>render_piece\<close> gives the string of a
  piece.
\<close>

datatype piece = Verbatim node | Generated ustring | Literal ustring

fun render_piece :: "(node \<Rightarrow> ustring) \<Rightarrow> FuriganaGenerator \<Rightarrow> bool \<Rightarrow> piece \<Rightarrow> ustring" where
  "render_piece str_of g filter_n3_plus (Verbatim n) = str_of n"
| "render_piece str_of g filter_n3_plus (Generated txt) = add_furigana g txt filter_n3_plus"
| "render_piece str_of g filter_n3_plus (Literal s) = s"

fun walk_pieces ::
  "(node \<Rightarrow> ustring) \<Rightarrow> FuriganaGenerator \<Rightarrow> bool \<Rightarrow> node list \<Rightarrow> piece list" where
  "walk_pieces str_of g filter_n3_plus [] = []"
| "walk_pieces str_of g filter_n3_plus (NavigableString s # rest) =
     (if strip s \<noteq> [] then [Generated (strip s)] else []) @
     walk_pieces str_of g filter_n3_plus rest"
| "walk_pieces str_of g filter_n3_plus (Tag name attrs cs # rest) =
     (if name = ''ruby'' then [Verbatim (Tag name attrs cs)]
      else if name = ''rt'' then []
      else if name \<in> set container_names then
        (let content = walk_pieces str_of g filter_n3_plus cs in
         if strip (concat (map (render_piece str_of g filter_n3_plus) content)) \<noteq> [] then
           (if name \<in> set block_names then [Literal [NEWLINE]] @ content @ [Literal [NEWLINE]]
            else content)
         else [])
      else if name = ''br'' then [Literal [NEWLINE]]
      else
        (let content = walk_pieces str_of g filter_n3_plus cs in
         if strip (concat (map (render_piece str_of g filter_n3_plus) content)) \<noteq> [] then content
         else [])) @
     walk_pieces str_of g filter_n3_plus rest"

text \<open>
  A serializer for the examples: the name of the element in angle brackets, what is
  inside, and the closing tag; attributes and the escaping of special characters are left
  out. And two documents: a ruby element inside a \<^verbatim>\<open>nav\<close> element, and a ruby element
  whose base has three newlines in a row.
\<close>

fun plain_str :: "node \<Rightarrow> ustring" where
  "plain_str (NavigableString s) = s"
| "plain_str (Tag name attrs cs) =
     ascii ''<'' @ ascii name @ ascii ''>'' @ concat (map plain_str cs) @
     ascii ''</'' @ ascii name @ ascii ''>''"

definition doc_nav_ruby :: "node list" where
  "doc_nav_ruby = [Tag ''nav'' [] [ruby_elem [0x6F22] [0x304B, 0x3093]]]"

definition doc_newline_ruby :: "node list" where
  "doc_newline_ruby = [ruby_elem [0x6F22, 0x0A, 0x0A, 0x0A, 0x5B57] [0x304B, 0x3093, 0x3058]]"

definition doc_plain_ruby :: "node list" where
  "doc_plain_ruby = [Tag ''p'' [] [ruby_elem [0x6F22] [0x304B, 0x3093]]]"

fun verbatim_nodes :: "piece list \<Rightarrow> node list" where
  "verbatim_nodes [] = []"
| "verbatim_nodes (Verbatim n # ps) = n # verbatim_nodes ps"
| "verbatim_nodes (Generated txt # ps) = verbatim_nodes ps"
| "verbatim_nodes (Literal s # ps) = verbatim_nodes ps"

text \<open>
  A third document: a ruby element whose base is an image, with the source
  \<^verbatim>\<open>a/b.png\<close>.
\<close>

definition doc_img_ruby :: "node list" where
  "doc_img_ruby =
     [Tag ''ruby'' [] [Tag ''img'' [(''src'', ascii ''a/b.png'')] [],
                      Tag ''rt'' [] [NavigableString [0x304B]]]]"

chapter \<open>Properties\<close>

section \<open>ReadingConverter\<close>

lemma katakana_loop_spec:
  "i = length result \<Longrightarrow>
   length (katakana_loop p i result s) = length result + length s \<and>
   take (length result) (katakana_loop p i result s) = result \<and>
   (\<forall>j<length s. katakana_loop p i result s ! (length result + j) =
      (if s ! j = LONG_VOWEL_MARK then
         (if p then LONG_VOWEL_MARK
          else if length result + j = 0 then LONG_VOWEL_MARK
          else get_vowel_for_long_mark (katakana_loop p i result s ! (length result + j - 1)))
       else if 0x30A1 \<le> s ! j \<and> s ! j \<le> 0x30F6 then s ! j - 0x60
       else s ! j))"
proof (induction s arbitrary: i result)
  case Nil
  then show ?case by simp
next
  case (Cons c rest)
  define x where "x =
     (if c = LONG_VOWEL_MARK then
        (if p then LONG_VOWEL_MARK
         else if i > 0 \<and> result \<noteq> [] then get_vowel_for_long_mark (last result)
         else LONG_VOWEL_MARK)
      else if 0x30A1 \<le> c \<and> c \<le> 0x30F6 then c - 0x60
      else c)"
  define out where "out = katakana_loop p (Suc i) (result @ [x]) rest"
  have out_eq: "katakana_loop p i result (c # rest) = out"
    by (simp add: out_def x_def)
  have ih: "length out = length (result @ [x]) + length rest \<and>
            take (length (result @ [x])) out = result @ [x] \<and>
            (\<forall>j<length rest. out ! (length (result @ [x]) + j) =
              (if rest ! j = LONG_VOWEL_MARK then
                 (if p then LONG_VOWEL_MARK
                  else if length (result @ [x]) + j = 0 then LONG_VOWEL_MARK
                  else get_vowel_for_long_mark (out ! (length (result @ [x]) + j - 1)))
               else if 0x30A1 \<le> rest ! j \<and> rest ! j \<le> 0x30F6 then rest ! j - 0x60
               else rest ! j))"
    unfolding out_def using Cons.IH [of "Suc i" "result @ [x]"] Cons.prems by simp
  from ih have len: "length out = Suc (length result) + length rest" by simp
  from ih have tk: "take (Suc (length result)) out = result @ [x]" by simp
  have pre: "take (length result) out = result"
  proof -
    have "take (length result) (take (Suc (length result)) out) = take (length result) (result @ [x])"
      using tk by simp
    then show ?thesis by (simp add: min_def)
  qed
  have at: "out ! length result = x"
  proof -
    have "take (Suc (length result)) out ! length result = (result @ [x]) ! length result"
      using tk by simp
    then show ?thesis by simp
  qed
  have lastr: "result \<noteq> [] \<Longrightarrow> last result = out ! (length result - 1)"
  proof -
    assume ne: "result \<noteq> []"
    then have "length result - 1 < length result" by (cases result) auto
    then have "take (length result) out ! (length result - 1) = out ! (length result - 1)"
      by simp
    with pre ne show ?thesis by (simp add: last_conv_nth)
  qed
  have step: "\<forall>j<length (c # rest). out ! (length result + j) =
      (if (c # rest) ! j = LONG_VOWEL_MARK then
         (if p then LONG_VOWEL_MARK
          else if length result + j = 0 then LONG_VOWEL_MARK
          else get_vowel_for_long_mark (out ! (length result + j - 1)))
       else if 0x30A1 \<le> (c # rest) ! j \<and> (c # rest) ! j \<le> 0x30F6 then (c # rest) ! j - 0x60
       else (c # rest) ! j)"
  proof (intro allI impI)
    fix j assume j: "j < length (c # rest)"
    show "out ! (length result + j) =
      (if (c # rest) ! j = LONG_VOWEL_MARK then
         (if p then LONG_VOWEL_MARK
          else if length result + j = 0 then LONG_VOWEL_MARK
          else get_vowel_for_long_mark (out ! (length result + j - 1)))
       else if 0x30A1 \<le> (c # rest) ! j \<and> (c # rest) ! j \<le> 0x30F6 then (c # rest) ! j - 0x60
       else (c # rest) ! j)"
    proof (cases j)
      case 0
      show ?thesis
      proof (cases "result = []")
        case True
        with 0 at Cons.prems show ?thesis by (simp add: x_def)
      next
        case False
        with 0 at Cons.prems lastr show ?thesis by (simp add: x_def)
      qed
    next
      case (Suc k)
      with j have k: "k < length rest" by simp
      from ih k have "out ! (length (result @ [x]) + k) =
              (if rest ! k = LONG_VOWEL_MARK then
                 (if p then LONG_VOWEL_MARK
                  else if length (result @ [x]) + k = 0 then LONG_VOWEL_MARK
                  else get_vowel_for_long_mark (out ! (length (result @ [x]) + k - 1)))
               else if 0x30A1 \<le> rest ! k \<and> rest ! k \<le> 0x30F6 then rest ! k - 0x60
               else rest ! k)" by blast
      with Suc show ?thesis by simp
    qed
  qed
  from len pre step show ?case unfolding out_eq by simp
qed

text \<open>
  C2 (as amended). The output of \<open>katakana_to_hiragana\<close> has one character per input
  character. With \<open>preserve_long_vowel\<close> set, a long-vowel mark is passed through. Without
  it, a long-vowel mark that has a predecessor becomes the vowel that
  \<open>get_vowel_for_long_mark\<close> gives for the character emitted just before it, and a
  long-vowel mark at the start of the string, which has no predecessor, is passed through
  unchanged. Any other character in U+30A1..U+30F6 is moved down by 0x60 and the rest is
  copied. The vowel is: a for the a-row, i for the i-row, u for the u-row, i for the e-row,
  u for the o-row, u for small ya, yu, yo, and a, i, u, i, u for small a, i, u, e, o; every
  other predecessor gives u.
\<close>

theorem katakana_to_hiragana_long_vowel:
  "length (katakana_to_hiragana s plv) = length s \<and>
   (\<forall>i<length s. katakana_to_hiragana s plv ! i =
      (if s ! i = LONG_VOWEL_MARK then
         (if plv then LONG_VOWEL_MARK
          else if i = 0 then LONG_VOWEL_MARK
          else get_vowel_for_long_mark (katakana_to_hiragana s plv ! (i - 1)))
       else if 0x30A1 \<le> s ! i \<and> s ! i \<le> 0x30F6 then s ! i - 0x60
       else s ! i)) \<and>
   (\<forall>c. (c \<in> set A_ROW \<longrightarrow> get_vowel_for_long_mark c = HIRA_A) \<and>
        (c \<in> set I_ROW \<longrightarrow> get_vowel_for_long_mark c = HIRA_I) \<and>
        (c \<in> set U_ROW \<longrightarrow> get_vowel_for_long_mark c = HIRA_U) \<and>
        (c \<in> set E_ROW \<longrightarrow> get_vowel_for_long_mark c = HIRA_I) \<and>
        (c \<in> set O_ROW \<longrightarrow> get_vowel_for_long_mark c = HIRA_U) \<and>
        (c \<in> set SMALL_YA_YU_YO \<longrightarrow> get_vowel_for_long_mark c = HIRA_U) \<and>
        (c = 0x3041 \<longrightarrow> get_vowel_for_long_mark c = HIRA_A) \<and>
        (c = 0x3043 \<longrightarrow> get_vowel_for_long_mark c = HIRA_I) \<and>
        (c = 0x3045 \<longrightarrow> get_vowel_for_long_mark c = HIRA_U) \<and>
        (c = 0x3047 \<longrightarrow> get_vowel_for_long_mark c = HIRA_I) \<and>
        (c = 0x3049 \<longrightarrow> get_vowel_for_long_mark c = HIRA_U) \<and>
        (c \<notin> set (A_ROW @ I_ROW @ U_ROW @ E_ROW @ O_ROW @ SMALL_YA_YU_YO @ SMALL_VOWELS)
           \<longrightarrow> get_vowel_for_long_mark c = HIRA_U))"
proof -
  have loop: "length (katakana_to_hiragana s plv) = length s \<and>
   (\<forall>i<length s. katakana_to_hiragana s plv ! i =
      (if s ! i = LONG_VOWEL_MARK then
         (if plv then LONG_VOWEL_MARK
          else if i = 0 then LONG_VOWEL_MARK
          else get_vowel_for_long_mark (katakana_to_hiragana s plv ! (i - 1)))
       else if 0x30A1 \<le> s ! i \<and> s ! i \<le> 0x30F6 then s ! i - 0x60
       else s ! i))"
    using katakana_loop_spec [of 0 "[]" plv s]
    by (simp add: katakana_to_hiragana_def)
  have table: "\<forall>c. (c \<in> set A_ROW \<longrightarrow> get_vowel_for_long_mark c = HIRA_A) \<and>
        (c \<in> set I_ROW \<longrightarrow> get_vowel_for_long_mark c = HIRA_I) \<and>
        (c \<in> set U_ROW \<longrightarrow> get_vowel_for_long_mark c = HIRA_U) \<and>
        (c \<in> set E_ROW \<longrightarrow> get_vowel_for_long_mark c = HIRA_I) \<and>
        (c \<in> set O_ROW \<longrightarrow> get_vowel_for_long_mark c = HIRA_U) \<and>
        (c \<in> set SMALL_YA_YU_YO \<longrightarrow> get_vowel_for_long_mark c = HIRA_U) \<and>
        (c = 0x3041 \<longrightarrow> get_vowel_for_long_mark c = HIRA_A) \<and>
        (c = 0x3043 \<longrightarrow> get_vowel_for_long_mark c = HIRA_I) \<and>
        (c = 0x3045 \<longrightarrow> get_vowel_for_long_mark c = HIRA_U) \<and>
        (c = 0x3047 \<longrightarrow> get_vowel_for_long_mark c = HIRA_I) \<and>
        (c = 0x3049 \<longrightarrow> get_vowel_for_long_mark c = HIRA_U) \<and>
        (c \<notin> set (A_ROW @ I_ROW @ U_ROW @ E_ROW @ O_ROW @ SMALL_YA_YU_YO @ SMALL_VOWELS)
           \<longrightarrow> get_vowel_for_long_mark c = HIRA_U)"
    by (auto simp: get_vowel_for_long_mark_def A_ROW_def I_ROW_def U_ROW_def E_ROW_def
        O_ROW_def SMALL_YA_YU_YO_def SMALL_VOWELS_def)
  from loop table show ?thesis by blast
qed

lemmas kana_defs = A_ROW_def I_ROW_def U_ROW_def E_ROW_def O_ROW_def SMALL_YA_YU_YO_def
  SMALL_VOWELS_def HIRA_A_def HIRA_I_def HIRA_U_def LONG_VOWEL_MARK_def

text \<open>
  The theorem at the reading U+30B7 U+30E8 U+30FC (shi, yo, long-vowel mark): the mark
  follows an emitted yo, of the o-row, and becomes u; with \<open>preserve_long_vowel\<close> it stays.
\<close>

theorem katakana_to_hiragana_long_vowel_witness:
  "katakana_to_hiragana [0x30B7, 0x30E8, 0x30FC] False = [0x3057, 0x3088, 0x3046] \<and>
   katakana_to_hiragana [0x30B7, 0x30E8, 0x30FC] True = [0x3057, 0x3088, 0x30FC] \<and>
   0x3088 \<in> set O_ROW \<and> get_vowel_for_long_mark 0x3088 = HIRA_U"
  using katakana_to_hiragana_long_vowel [of "[0x30B7, 0x30E8, 0x30FC]" False]
  by (simp add: katakana_to_hiragana_def get_vowel_for_long_mark_def kana_defs)

text \<open>
  C2 as stated fails twice. A long-vowel mark with no preceding character is kept as the
  mark U+30FC, not turned into u (U+3046); and after a small o (U+3049) the mark becomes
  u, not o (U+304A): fu, small o, mark gives fu, small o, u.
\<close>

theorem katakana_to_hiragana_long_vowel_counterexample:
  "katakana_to_hiragana [0x30FC] False = [0x30FC] \<and>
   katakana_to_hiragana [0x30FC] False \<noteq> [0x3046] \<and>
   katakana_to_hiragana [0x30D5, 0x30A9, 0x30FC] False = [0x3075, 0x3049, 0x3046] \<and>
   katakana_to_hiragana [0x30D5, 0x30A9, 0x30FC] False \<noteq> [0x3075, 0x3049, 0x304A]"
  by (simp add: katakana_to_hiragana_def get_vowel_for_long_mark_def kana_defs)

section \<open>FuriganaAnnotator\<close>

lemma split_on_nonempty: "split_on sep s \<noteq> []"
  by (induction s) auto



lemmas annotate_defs = add_furigana_spans_def annotate_line_def mecab_tokens_def strip_def
  lstrip_def rstrip_def py_isspace_def ascii_def TAB_def NEWLINE_def is_kanji_def
  katakana_to_hiragana_def Let_def LONG_VOWEL_MARK_def has_any_n3_plus_kanji_def
  is_n3_plus_kanji_def




text \<open>
  C4 (as amended). With the filter on, a token whose surface contains a kanji is emitted
  as a ruby span if and only if the surface contains a kanji that is not in the elementary
  set and a reading is at hand (the surface is in the name dictionary, or the tokenizer
  reading is not empty); the reading is the dictionary's, else the converted tokenizer
  reading. Otherwise the surface is emitted unaltered. In particular a surface made of
  elementary kanji only is emitted unglossed.
\<close>

theorem add_furigana_filter_mode:
  "2 \<le> length (split_on TAB line) \<and> list_ex is_kanji (split_on TAB line ! 0) \<longrightarrow>
   annotate_line g True line =
     (if has_any_n3_plus_kanji (split_on TAB line ! 0) \<and>
         (name_dictionary g (split_on TAB line ! 0) \<noteq> None \<or> split_on TAB line ! 1 \<noteq> [])
      then [Ruby (split_on TAB line ! 0)
              (case name_dictionary g (split_on TAB line ! 0) of
                 Some r \<Rightarrow> r
               | None \<Rightarrow> katakana_to_hiragana (split_on TAB line ! 1) (preserve_long_vowel g))]
      else [Plain (split_on TAB line ! 0)]) \<and>
   (set (split_on TAB line ! 0) \<subseteq> set N4_AND_LOWER_KANJI \<longrightarrow>
      annotate_line g True line = [Plain (split_on TAB line ! 0)])"
proof (intro impI)
  assume h: "2 \<le> length (split_on TAB line) \<and> list_ex is_kanji (split_on TAB line ! 0)"
  then have ne: "line \<noteq> ascii ''EOS''" "line \<noteq> []"
    by (auto simp: ascii_def TAB_def)
  have n4: "set (split_on TAB line ! 0) \<subseteq> set N4_AND_LOWER_KANJI \<Longrightarrow>
     \<not> has_any_n3_plus_kanji (split_on TAB line ! 0)"
    by (auto simp: has_any_n3_plus_kanji_def is_n3_plus_kanji_def list_ex_iff)
  from h ne n4 show "annotate_line g True line =
     (if has_any_n3_plus_kanji (split_on TAB line ! 0) \<and>
         (name_dictionary g (split_on TAB line ! 0) \<noteq> None \<or> split_on TAB line ! 1 \<noteq> [])
      then [Ruby (split_on TAB line ! 0)
              (case name_dictionary g (split_on TAB line ! 0) of
                 Some r \<Rightarrow> r
               | None \<Rightarrow> katakana_to_hiragana (split_on TAB line ! 1) (preserve_long_vowel g))]
      else [Plain (split_on TAB line ! 0)]) \<and>
   (set (split_on TAB line ! 0) \<subseteq> set N4_AND_LOWER_KANJI \<longrightarrow>
      annotate_line g True line = [Plain (split_on TAB line ! 0)])"
    by (auto simp: annotate_line_def Let_def)
qed

text \<open>
  The theorem at two lines: U+8956 with the reading fu-su-ma, a kanji outside the
  elementary set, is glossed; U+884C with the reading i, an elementary kanji, is not.
\<close>

theorem add_furigana_filter_mode_witness:
  "annotate_line gen_plain True [0x8956, 0x09, 0x30D5, 0x30B9, 0x30DE] =
     [Ruby [0x8956] [0x3075, 0x3059, 0x307E]] \<and>
   annotate_line gen_plain True [0x884C, 0x09, 0x30A4] = [Plain [0x884C]] \<and>
   has_any_n3_plus_kanji [0x8956] \<and> set [0x884C] \<subseteq> set N4_AND_LOWER_KANJI"
  using add_furigana_filter_mode [of "[0x8956, 0x09, 0x30D5, 0x30B9, 0x30DE]" gen_plain]
    add_furigana_filter_mode [of "[0x884C, 0x09, 0x30A4]" gen_plain]
  by (simp add: annotate_defs gen_plain_def N4_AND_LOWER_KANJI_def)

text \<open>
  C4 as stated fails on the token U+884C U+304F (the verb i-ku) with the reading i-ku:
  its surface contains a kanji and contains a character outside the elementary set, the
  hiragana ku, yet with the filter on it is emitted unglossed, because its only kanji is
  elementary. It fails too on the token U+8956 with no tokenizer reading and no
  dictionary entry: its kanji is outside the elementary set, and it is emitted unglossed
  all the same, there being no reading to gloss it with.
\<close>

theorem add_furigana_filter_mode_counterexample:
  "list_ex is_kanji [0x884C, 0x304F] \<and>
   list_ex (\<lambda>c. c \<notin> set N4_AND_LOWER_KANJI) [0x884C, 0x304F] \<and>
   annotate_line gen_plain True [0x884C, 0x304F, 0x09, 0x30A4, 0x30AF] = [Plain [0x884C, 0x304F]] \<and>
   has_any_n3_plus_kanji [0x8956] \<and>
   annotate_line gen_plain True [0x8956, 0x09] = [Plain [0x8956]]"
  by (simp add: annotate_defs gen_plain_def N4_AND_LOWER_KANJI_def)

section \<open>VocabularyMerger\<close>

lemma find_suffix_loop_spec:
  "i \<le> length candidate \<Longrightarrow>
   (find_suffix_loop candidate i = [] \<and>
      (\<forall>k. 2 \<le> k \<and> k \<le> i \<longrightarrow> take k candidate \<notin> set VALID_OKURIGANA)) \<or>
   (\<exists>j. 2 \<le> j \<and> j \<le> i \<and> find_suffix_loop candidate i = take j candidate \<and>
      take j candidate \<in> set VALID_OKURIGANA \<and>
      (\<forall>k. j < k \<and> k \<le> i \<longrightarrow> take k candidate \<notin> set VALID_OKURIGANA))"
proof (induction i)
  case 0
  then show ?case by (simp add: find_suffix_loop.simps)
next
  case (Suc i)
  show ?case
  proof (cases "Suc i > 1")
    case False
    then have e: "find_suffix_loop candidate (Suc i) = []"
      by (simp add: find_suffix_loop.simps)
    from False have "\<forall>k. 2 \<le> k \<and> k \<le> Suc i \<longrightarrow> take k candidate \<notin> set VALID_OKURIGANA"
      by auto
    with e show ?thesis by blast
  next
    case big: True
    show ?thesis
    proof (cases "take (Suc i) candidate \<in> set VALID_OKURIGANA")
      case True
      with big have "find_suffix_loop candidate (Suc i) = take (Suc i) candidate"
        by (simp add: find_suffix_loop.simps)
      with True big show ?thesis by (intro disjI2 exI [of _ "Suc i"]) auto
    next
      case False
      with big have eq: "find_suffix_loop candidate (Suc i) = find_suffix_loop candidate i"
        by (simp add: find_suffix_loop.simps)
      from Suc.prems have "i \<le> length candidate" by simp
      from Suc.IH [OF this] show ?thesis
      proof
        assume a: "find_suffix_loop candidate i = [] \<and>
          (\<forall>k. 2 \<le> k \<and> k \<le> i \<longrightarrow> take k candidate \<notin> set VALID_OKURIGANA)"
        have "\<forall>k. 2 \<le> k \<and> k \<le> Suc i \<longrightarrow> take k candidate \<notin> set VALID_OKURIGANA"
        proof (intro allI impI)
          fix k assume "2 \<le> k \<and> k \<le> Suc i"
          then show "take k candidate \<notin> set VALID_OKURIGANA"
            using a False by (cases "k = Suc i") auto
        qed
        with a eq show ?thesis by simp
      next
        assume "\<exists>j. 2 \<le> j \<and> j \<le> i \<and> find_suffix_loop candidate i = take j candidate \<and>
          take j candidate \<in> set VALID_OKURIGANA \<and>
          (\<forall>k. j < k \<and> k \<le> i \<longrightarrow> take k candidate \<notin> set VALID_OKURIGANA)"
        then obtain j where j: "2 \<le> j" "j \<le> i" "find_suffix_loop candidate i = take j candidate"
          "take j candidate \<in> set VALID_OKURIGANA"
          "\<forall>k. j < k \<and> k \<le> i \<longrightarrow> take k candidate \<notin> set VALID_OKURIGANA" by blast
        have "\<forall>k. j < k \<and> k \<le> Suc i \<longrightarrow> take k candidate \<notin> set VALID_OKURIGANA"
        proof (intro allI impI)
          fix k assume "j < k \<and> k \<le> Suc i"
          then show "take k candidate \<notin> set VALID_OKURIGANA"
            using j(5) False by (cases "k = Suc i") auto
        qed
        with j eq show ?thesis by (intro disjI2 exI [of _ j]) simp
      qed
    qed
  qed
qed

lemma find_suffix_loop_length:
  assumes "i \<le> length candidate"
  shows "find_suffix_loop candidate i = [] \<or> 2 \<le> length (find_suffix_loop candidate i)"
  using find_suffix_loop_spec [OF assms]
proof
  assume "find_suffix_loop candidate i = [] \<and>
      (\<forall>k. 2 \<le> k \<and> k \<le> i \<longrightarrow> take k candidate \<notin> set VALID_OKURIGANA)"
  then show ?thesis by simp
next
  assume "\<exists>j. 2 \<le> j \<and> j \<le> i \<and> find_suffix_loop candidate i = take j candidate \<and>
      take j candidate \<in> set VALID_OKURIGANA \<and>
      (\<forall>k. j < k \<and> k \<le> i \<longrightarrow> take k candidate \<notin> set VALID_OKURIGANA)"
  then obtain j where j: "2 \<le> j" "j \<le> i" "find_suffix_loop candidate i = take j candidate"
    by blast
  with assms have "length (find_suffix_loop candidate i) = j" by simp
  with j show ?thesis by simp
qed

lemma u_in_tables: "[0x3046] \<in> set VALID_OKURIGANA" "[0x3046] \<notin> set PARTICLES"
  by (simp_all add: VALID_OKURIGANA_def PARTICLES_def)

lemma de_ne_in_tables: "[0x3067] \<in> set VALID_OKURIGANA" "[0x3067] \<in> set PARTICLES"
   "[0x306D] \<in> set VALID_OKURIGANA" "[0x306D] \<in> set PARTICLES"
  by (simp_all add: VALID_OKURIGANA_def PARTICLES_def)

lemma capture_single:
  "capture_okurigana [c] base =
     (if HIRAGANA_PATTERN_class c then
        (if [c] \<in> set VALID_OKURIGANA \<and> [c] \<notin> set PARTICLES then [c]
         else if [c] = [0x3046] \<and> base \<noteq> [] \<and> last base \<in> set [0x3053, 0x305D, 0x3088, 0x308D] then [c]
         else [])
      else [])"
  by (simp add: capture_okurigana_def HIRAGANA_PATTERN_match_def find_suffix_loop.simps Let_def)

lemma strip_single: "\<not> py_isspace c \<Longrightarrow> strip [c] = [c]"
  by (simp add: strip_def lstrip_def rstrip_def)

lemma single_ruby_words:
  assumes "b \<noteq> []" "r \<noteq> []" "strip b = b" "strip r = r" "\<not> startswith b [REPETITION_MARK]"
  shows "extract_words_from_html [SRuby k, SText trailing] (\<lambda>i. [IText b, IRt [IText r]]) =
         add_word (b @ capture_okurigana trailing b) (r @ capture_okurigana trailing b) []"
proof -
  have rb: "ruby_base [IText b, IRt [IText r]] = ((b, r), [IText b, IRt [IText r]])"
    using assms by (simp add: ruby_base_def Let_def)
  have nx: "get_next_sibling_ruby [SText trailing] = None" by simp
  show ?thesis
    using assms
    by (simp add: extract_words_from_html_def process_ruby_def extract_ruby_base_def rb
        compound_merge.simps [of _ _ _ _ "[SText trailing]"] nx Let_def)
qed

lemma find_suffix_tta: "find_suffix_loop [0x3063, 0x305F] (Suc (Suc 0)) = [0x3063, 0x305F]"
  by (simp add: find_suffix_loop.simps VALID_OKURIGANA_def)

lemma match_tta: "HIRAGANA_PATTERN_match [0x3063, 0x305F] = [0x3063, 0x305F]"
  by (simp add: HIRAGANA_PATTERN_match_def HIRAGANA_PATTERN_class_def)

lemma capture_tta: "capture_okurigana [0x3063, 0x305F] b = [0x3063, 0x305F]"
  unfolding capture_okurigana_def match_tta by (simp add: find_suffix_tta Let_def)

lemma not_space: "\<not> py_isspace 0x884C" "\<not> py_isspace 0x3044"
  by (simp_all add: py_isspace_def)

lemma itta_words: "extract_words_from_html [SRuby 0, SText [0x3063, 0x305F]] (\<lambda>i. [IText [0x884C], IRt [IText [0x3044]]]) =
     [([0x884C, 0x3063, 0x305F],
       \<lparr>w_word = [0x884C, 0x3063, 0x305F], w_reading = [0x3044, 0x3063, 0x305F],
        w_source = ''epub'', w_note = ''''\<rparr>)]"
  using single_ruby_words [of "[0x884C]" "[0x3044]" 0 "[0x3063, 0x305F]"]
  by (simp add: strip_single not_space startswith_def REPETITION_MARK_def capture_tta add_word_def)














lemma capture_okurigana_longest:
  "(let candidate = take 4 (HIRAGANA_PATTERN_match trailing);
        s = capture_okurigana trailing base
    in (s \<noteq> [] \<longrightarrow>
          s = take (length s) candidate \<and> length s \<le> length candidate \<and>
          s \<in> set VALID_OKURIGANA \<and>
          (length s = 1 \<longrightarrow> s \<notin> set PARTICLES) \<and>
          (\<forall>n. length s < n \<and> n \<le> length candidate \<longrightarrow> take n candidate \<notin> set VALID_OKURIGANA)) \<and>
       (s = [] \<longrightarrow>
          (\<forall>n. 2 \<le> n \<and> n \<le> length candidate \<longrightarrow> take n candidate \<notin> set VALID_OKURIGANA) \<and>
          (candidate \<noteq> [] \<longrightarrow>
             take 1 candidate \<notin> set VALID_OKURIGANA \<or> take 1 candidate \<in> set PARTICLES)))"
proof -
  define candidate where "candidate = take 4 (HIRAGANA_PATTERN_match trailing)"
  define found where "found = find_suffix_loop candidate (min (length candidate) 4)"
  define s where "s = capture_okurigana trailing base"
  have len4: "length candidate \<le> 4" by (simp add: candidate_def)
  then have mn: "min (length candidate) 4 = length candidate" by simp
  have cap: "s =
      (if HIRAGANA_PATTERN_match trailing = [] then []
       else if found = [] \<and> length candidate \<ge> 1 then
          (if [candidate ! 0] \<in> set VALID_OKURIGANA \<and> [candidate ! 0] \<notin> set PARTICLES
           then [candidate ! 0]
           else if [candidate ! 0] = [0x3046] \<and> base \<noteq> [] \<and>
                   last base \<in> set [0x3053, 0x305D, 0x3088, 0x308D]
           then [candidate ! 0]
           else found)
       else found)"
    by (simp only: s_def capture_okurigana_def Let_def candidate_def found_def)
  have t1: "candidate \<noteq> [] \<Longrightarrow> take 1 candidate = [candidate ! 0]"
    by (cases candidate) auto
  have nomatch: "HIRAGANA_PATTERN_match trailing = [] \<Longrightarrow> candidate = []"
    by (simp add: candidate_def)
  have spec: "(found = [] \<and>
      (\<forall>k. 2 \<le> k \<and> k \<le> length candidate \<longrightarrow> take k candidate \<notin> set VALID_OKURIGANA)) \<or>
   (\<exists>j. 2 \<le> j \<and> j \<le> length candidate \<and> found = take j candidate \<and>
      take j candidate \<in> set VALID_OKURIGANA \<and>
      (\<forall>k. j < k \<and> k \<le> length candidate \<longrightarrow> take k candidate \<notin> set VALID_OKURIGANA))"
    using find_suffix_loop_spec [of "min (length candidate) 4" candidate]
    unfolding found_def mn by simp
  have goal: "(s \<noteq> [] \<longrightarrow>
          s = take (length s) candidate \<and> length s \<le> length candidate \<and>
          s \<in> set VALID_OKURIGANA \<and>
          (length s = 1 \<longrightarrow> s \<notin> set PARTICLES) \<and>
          (\<forall>n. length s < n \<and> n \<le> length candidate \<longrightarrow> take n candidate \<notin> set VALID_OKURIGANA)) \<and>
       (s = [] \<longrightarrow>
          (\<forall>n. 2 \<le> n \<and> n \<le> length candidate \<longrightarrow> take n candidate \<notin> set VALID_OKURIGANA) \<and>
          (candidate \<noteq> [] \<longrightarrow>
             take 1 candidate \<notin> set VALID_OKURIGANA \<or> take 1 candidate \<in> set PARTICLES))"
    using spec
  proof
    assume a: "found = [] \<and>
      (\<forall>k. 2 \<le> k \<and> k \<le> length candidate \<longrightarrow> take k candidate \<notin> set VALID_OKURIGANA)"
    show ?thesis
    proof (cases "candidate = []")
      case True
      with a cap show ?thesis by (auto split: if_splits)
    next
      case False
      then have l1: "1 \<le> length candidate" by (cases candidate) auto
      from False nomatch have m: "HIRAGANA_PATTERN_match trailing \<noteq> []" by blast
      have all2: "\<forall>n. Suc 0 < n \<and> n \<le> length candidate \<longrightarrow> take n candidate \<notin> set VALID_OKURIGANA"
        using a by auto
      consider (v) "[candidate ! 0] \<in> set VALID_OKURIGANA \<and> [candidate ! 0] \<notin> set PARTICLES"
        | (u) "\<not> ([candidate ! 0] \<in> set VALID_OKURIGANA \<and> [candidate ! 0] \<notin> set PARTICLES)"
              "[candidate ! 0] = [0x3046] \<and> base \<noteq> [] \<and> last base \<in> set [0x3053, 0x305D, 0x3088, 0x308D]"
        | (n) "\<not> ([candidate ! 0] \<in> set VALID_OKURIGANA \<and> [candidate ! 0] \<notin> set PARTICLES)"
              "\<not> ([candidate ! 0] = [0x3046] \<and> base \<noteq> [] \<and> last base \<in> set [0x3053, 0x305D, 0x3088, 0x308D])"
        by blast
      then show ?thesis
      proof cases
        case v
        with cap a m l1 have "s = [candidate ! 0]" by simp
        with v t1 [OF False] l1 all2 show ?thesis by simp
      next
        case u
        with cap a m l1 have "s = [candidate ! 0]" by simp
        with u u_in_tables t1 [OF False] l1 all2 show ?thesis by simp
      next
        case n
        with cap a m l1 have "s = []" by simp
        with n a t1 [OF False] show ?thesis by auto
      qed
    qed
  next
    assume "\<exists>j. 2 \<le> j \<and> j \<le> length candidate \<and> found = take j candidate \<and>
      take j candidate \<in> set VALID_OKURIGANA \<and>
      (\<forall>k. j < k \<and> k \<le> length candidate \<longrightarrow> take k candidate \<notin> set VALID_OKURIGANA)"
    then obtain j where j: "2 \<le> j" "j \<le> length candidate" "found = take j candidate"
      "take j candidate \<in> set VALID_OKURIGANA"
      "\<forall>k. j < k \<and> k \<le> length candidate \<longrightarrow> take k candidate \<notin> set VALID_OKURIGANA" by blast
    then have fl: "length found = j" by simp
    with j have fne: "found \<noteq> []" by auto
    from j have "candidate \<noteq> []" by auto
    with nomatch have m: "HIRAGANA_PATTERN_match trailing \<noteq> []" by blast
    from cap m fne have "s = found" by simp
    with j fl fne show ?thesis by simp
  qed
  show ?thesis
    unfolding Let_def candidate_def [symmetric] s_def [symmetric] using goal .
qed

lemma not_in_valid_deha: "[0x3067, 0x306F] \<notin> set VALID_OKURIGANA"
  by (simp add: VALID_OKURIGANA_def)

lemma capture_deha: "capture_okurigana [0x3067, 0x306F] b = []"
proof -
  have m: "HIRAGANA_PATTERN_match [0x3067, 0x306F] = [0x3067, 0x306F]"
    by (simp add: HIRAGANA_PATTERN_match_def HIRAGANA_PATTERN_class_def)
  have f: "find_suffix_loop [0x3067, 0x306F] (Suc (Suc 0)) = []"
    using not_in_valid_deha by (simp add: find_suffix_loop.simps)
  show ?thesis
    unfolding capture_okurigana_def m using de_ne_in_tables by (simp add: f Let_def)
qed

text \<open>
  C8 (as amended). The suffix that the okurigana capture finds for a trailing text is a
  prefix of the candidate, the first four characters at most of the leading run of
  hiragana (or long-vowel marks) of the trailing text. When it is not empty it is in the
  table of endings, it is not a particle when it is one character long, and no longer
  prefix of the candidate is in the table. When it is empty, no prefix of two to four
  characters is in the table, and the first character is not in the table or is a
  particle. For a ruby element followed by a text node the entry is made of base and
  reading with this suffix appended to both. In particular the ruby element U+884C (read
  i) followed by the text small-tsu ta gives the entry with word U+884C small-tsu ta and
  reading i small-tsu ta.
\<close>

theorem okurigana_longest_match:
  "(let candidate = take 4 (HIRAGANA_PATTERN_match trailing);
        s = capture_okurigana trailing base
    in (s \<noteq> [] \<longrightarrow>
          s = take (length s) candidate \<and> length s \<le> length candidate \<and>
          s \<in> set VALID_OKURIGANA \<and>
          (length s = 1 \<longrightarrow> s \<notin> set PARTICLES) \<and>
          (\<forall>n. length s < n \<and> n \<le> length candidate \<longrightarrow> take n candidate \<notin> set VALID_OKURIGANA)) \<and>
       (s = [] \<longrightarrow>
          (\<forall>n. 2 \<le> n \<and> n \<le> length candidate \<longrightarrow> take n candidate \<notin> set VALID_OKURIGANA) \<and>
          (candidate \<noteq> [] \<longrightarrow>
             take 1 candidate \<notin> set VALID_OKURIGANA \<or> take 1 candidate \<in> set PARTICLES))) \<and>
   (b \<noteq> [] \<and> r \<noteq> [] \<and> strip b = b \<and> strip r = r \<and> \<not> startswith b [REPETITION_MARK] \<longrightarrow>
      extract_words_from_html [SRuby k, SText trailing] (\<lambda>i. [IText b, IRt [IText r]]) =
        add_word (b @ capture_okurigana trailing b) (r @ capture_okurigana trailing b) []) \<and>
   extract_words_from_html [SRuby 0, SText [0x3063, 0x305F]]
       (\<lambda>i. [IText [0x884C], IRt [IText [0x3044]]]) =
     [([0x884C, 0x3063, 0x305F],
       \<lparr>w_word = [0x884C, 0x3063, 0x305F], w_reading = [0x3044, 0x3063, 0x305F],
        w_source = ''epub'', w_note = ''''\<rparr>)]"
  using capture_okurigana_longest [of trailing base] single_ruby_words [of b r k trailing]
    itta_words
  by blast

text \<open>
  The theorem at the trailing text small-tsu ta after the base U+884C: the suffix found
  is small-tsu ta, of two characters, which is in the table.
\<close>

theorem okurigana_longest_match_witness:
  "capture_okurigana [0x3063, 0x305F] [0x884C] = [0x3063, 0x305F] \<and>
   take 4 (HIRAGANA_PATTERN_match [0x3063, 0x305F]) = [0x3063, 0x305F] \<and>
   [0x3063, 0x305F] \<in> set VALID_OKURIGANA \<and>
   add_word ([0x884C] @ [0x3063, 0x305F]) ([0x3044] @ [0x3063, 0x305F]) [] =
     [([0x884C, 0x3063, 0x305F],
       \<lparr>w_word = [0x884C, 0x3063, 0x305F], w_reading = [0x3044, 0x3063, 0x305F],
        w_source = ''epub'', w_note = ''''\<rparr>)]"
  using okurigana_longest_match [of "[0x3063, 0x305F]" "[0x884C]" "[0x884C]" "[0x3044]" 0]
  by (simp add: capture_tta match_tta add_word_def Let_def)

text \<open>
  C8 as stated fails when the only prefix of the candidate that is in the table is one
  character long and is a particle. After the ruby element U+884C (read i), the trailing
  text de ha has the candidate de ha; its prefix de is in the table of endings, and it is
  the longest prefix that is; yet nothing is appended, and the entry is the bare U+884C
  with the reading i.
\<close>

theorem okurigana_longest_match_counterexample:
  "take 4 (HIRAGANA_PATTERN_match [0x3067, 0x306F]) = [0x3067, 0x306F] \<and>
   take 1 [0x3067, 0x306F] \<in> set VALID_OKURIGANA \<and>
   capture_okurigana [0x3067, 0x306F] [0x884C] = [] \<and>
   extract_words_from_html [SRuby 0, SText [0x3067, 0x306F]]
       (\<lambda>i. [IText [0x884C], IRt [IText [0x3044]]]) =
     [([0x884C], \<lparr>w_word = [0x884C], w_reading = [0x3044], w_source = ''epub'', w_note = ''''\<rparr>)]"
  using single_ruby_words [of "[0x884C]" "[0x3044]" 0 "[0x3067, 0x306F]"] de_ne_in_tables
  by (simp add: strip_single not_space startswith_def REPETITION_MARK_def capture_deha add_word_def
      HIRAGANA_PATTERN_match_def HIRAGANA_PATTERN_class_def)

text \<open>
  C10. Whatever the trailing text and the base, a suffix of one character that the
  okurigana capture finds is not a particle. The characters de (U+3067) and ne (U+306D)
  are both in the table of endings and in the set of particles, and a trailing text that
  is de alone or ne alone gives no suffix: nothing is appended to base and reading. A
  trailing text that is u (U+3046) alone is captured when the base ends in ko, so, yo
  or ro.
\<close>

theorem okurigana_single_char_fallback:
  "(capture_okurigana trailing base = [c] \<longrightarrow> [c] \<notin> set PARTICLES) \<and>
   [0x3067] \<in> set VALID_OKURIGANA \<and> [0x3067] \<in> set PARTICLES \<and>
   capture_okurigana [0x3067] base = [] \<and>
   [0x306D] \<in> set VALID_OKURIGANA \<and> [0x306D] \<in> set PARTICLES \<and>
   capture_okurigana [0x306D] base = [] \<and>
   (base \<noteq> [] \<and> last base \<in> set [0x3053, 0x305D, 0x3088, 0x308D] \<longrightarrow>
      capture_okurigana [0x3046] base = [0x3046])"
proof -
  have one: "capture_okurigana trailing base = [c] \<longrightarrow> [c] \<notin> set PARTICLES"
  proof
    assume eq: "capture_okurigana trailing base = [c]"
    define candidate where "candidate = take 4 (HIRAGANA_PATTERN_match trailing)"
    define found where "found = find_suffix_loop candidate (min (length candidate) 4)"
    have "min (length candidate) 4 \<le> length candidate" by simp
    from find_suffix_loop_length [OF this]
    have f: "found = [] \<or> 2 \<le> length found"
      unfolding found_def .
    have cap: "capture_okurigana trailing base =
      (if HIRAGANA_PATTERN_match trailing = [] then []
       else if found = [] \<and> length candidate \<ge> 1 then
          (if [candidate ! 0] \<in> set VALID_OKURIGANA \<and> [candidate ! 0] \<notin> set PARTICLES
           then [candidate ! 0]
           else if [candidate ! 0] = [0x3046] \<and> base \<noteq> [] \<and>
                   last base \<in> set [0x3053, 0x305D, 0x3088, 0x308D]
           then [candidate ! 0]
           else found)
       else found)"
      by (simp only: capture_okurigana_def Let_def candidate_def found_def)
    show "[c] \<notin> set PARTICLES"
    proof (cases "found = []")
      case True
      with eq cap show ?thesis
        using u_in_tables(2) by (auto split: if_splits)
    next
      case False
      with f have "2 \<le> length found" by simp
      moreover from False eq cap have "found = [c]"
        by (auto split: if_splits)
      ultimately show ?thesis by simp
    qed
  qed
  have de: "capture_okurigana [0x3067] base = []" "capture_okurigana [0x306D] base = []"
    using de_ne_in_tables by (simp_all add: capture_single)
  have u: "base \<noteq> [] \<and> last base \<in> set [0x3053, 0x305D, 0x3088, 0x308D] \<longrightarrow>
      capture_okurigana [0x3046] base = [0x3046]"
    using u_in_tables by (simp add: capture_single HIRAGANA_PATTERN_class_def)
  from one de de_ne_in_tables u show ?thesis by blast
qed

text \<open>
  The theorem at the trailing text u after the base U+884C ko, which ends in ko: the u
  is captured.
\<close>

theorem okurigana_single_char_fallback_witness:
  "[0x884C, 0x3053] \<noteq> [] \<and> last [0x884C, 0x3053] \<in> set [0x3053, 0x305D, 0x3088, 0x308D] \<and>
   capture_okurigana [0x3046] [0x884C, 0x3053] = [0x3046] \<and>
   capture_okurigana [0x3067] [0x884C] = [] \<and>
   [0x3046] \<notin> set PARTICLES"
  using okurigana_single_char_fallback [of "[0x3046]" "[0x884C, 0x3053]" "0x3046"]
    okurigana_single_char_fallback [of "[0x3067]" "[0x884C]" "0x3067"]
  by simp

section \<open>NameDictionaryBuilder\<close>

lemma foldl_count_ruby:
  "foldl count_ruby F rubies = foldl (\<lambda>f k. counter_incr k f) F (List.map_filter ruby_pair rubies)"
  by (induction rubies arbitrary: F) (auto simp: count_ruby_def List.map_filter_simps split: option.splits)

lemma counter_incr_keys:
  "map fst (counter_incr k F) = (if k \<in> set (map fst F) then map fst F else map fst F @ [k])"
  by (induction F) (force+)

lemma counter_incr_map_of:
  "map_of (counter_incr k F) k' =
     (if k' = k then Some (case map_of F k of None \<Rightarrow> 1 | Some n \<Rightarrow> Suc n) else map_of F k')"
  by (induction F) (auto)

lemma first_seen_less: "x \<in> set xs \<Longrightarrow> first_seen xs x < length xs"
  unfolding first_seen_def
  by (induction xs) auto

lemma first_seen_snoc_in: "k \<in> set xs \<Longrightarrow> first_seen (xs @ [x]) k = first_seen xs k"
  unfolding first_seen_def by (induction xs) auto

lemma first_seen_snoc_new: "x \<notin> set xs \<Longrightarrow> first_seen (xs @ [x]) x = length xs"
  unfolding first_seen_def by (induction xs) auto

lemma frequency_invariant:
  "distinct (map fst (foldl (\<lambda>f k. counter_incr k f) [] xs)) \<and>
   set (map fst (foldl (\<lambda>f k. counter_incr k f) [] xs)) = set xs \<and>
   (\<forall>k. map_of (foldl (\<lambda>f k. counter_incr k f) [] xs) k =
      (if k \<in> set xs then Some (count_list xs k) else None)) \<and>
   sorted_wrt (\<lambda>a b. first_seen xs a < first_seen xs b)
      (map fst (foldl (\<lambda>f k. counter_incr k f) [] xs))"
proof (induction xs rule: rev_induct)
  case Nil
  then show ?case by simp
next
  case (snoc x xs)
  define F where "F = foldl (\<lambda>f k. counter_incr k f) [] xs"
  from snoc have d: "distinct (map fst F)" and s: "set (map fst F) = set xs"
    and m: "\<forall>k. map_of F k = (if k \<in> set xs then Some (count_list xs k) else None)"
    and o: "sorted_wrt (\<lambda>a b. first_seen xs a < first_seen xs b) (map fst F)"
    unfolding F_def by blast+
  have F': "foldl (\<lambda>f k. counter_incr k f) [] (xs @ [x]) = counter_incr x F"
    by (simp add: F_def)
  have keys: "map fst (counter_incr x F) = (if x \<in> set xs then map fst F else map fst F @ [x])"
    using counter_incr_keys [of x F] s by simp
  have d': "distinct (map fst (counter_incr x F))"
    using d s keys by auto
  have s': "set (map fst (counter_incr x F)) = set (xs @ [x])"
    using s keys by auto
  have m': "\<forall>k. map_of (counter_incr x F) k =
      (if k \<in> set (xs @ [x]) then Some (count_list (xs @ [x]) k) else None)"
  proof
    fix k
    show "map_of (counter_incr x F) k =
      (if k \<in> set (xs @ [x]) then Some (count_list (xs @ [x]) k) else None)"
      using m by (auto simp: counter_incr_map_of)
  qed
  have o1: "sorted_wrt (\<lambda>a b. first_seen (xs @ [x]) a < first_seen (xs @ [x]) b) (map fst F)"
  proof -
    have "\<And>a b. a \<in> set (map fst F) \<Longrightarrow> b \<in> set (map fst F) \<Longrightarrow>
        first_seen xs a < first_seen xs b \<Longrightarrow> first_seen (xs @ [x]) a < first_seen (xs @ [x]) b"
      using s by (simp add: first_seen_snoc_in)
    with o show ?thesis by (rule sorted_wrt_mono_rel [rotated]) 
  qed
  have o': "sorted_wrt (\<lambda>a b. first_seen (xs @ [x]) a < first_seen (xs @ [x]) b)
      (map fst (counter_incr x F))"
  proof (cases "x \<in> set xs")
    case True
    with keys o1 show ?thesis by simp
  next
    case False
    have "\<forall>a\<in>set (map fst F). first_seen (xs @ [x]) a < first_seen (xs @ [x]) x"
      using s False by (auto simp: first_seen_snoc_in first_seen_snoc_new first_seen_less)
    with False keys o1 show ?thesis by (simp add: sorted_wrt_append)
  qed
  from d' s' m' o' show ?case unfolding F' by blast
qed

lemma foldl_max_spec:
  "(foldl (\<lambda>m x. if snd m < snd x then x else m) (m :: 'a \<times> nat) xs = m \<and> (\<forall>x\<in>set xs. snd x \<le> snd m)) \<or>
   (\<exists>ys zs. xs = ys @ foldl (\<lambda>m x. if snd m < snd x then x else m) m xs # zs \<and>
      snd m < snd (foldl (\<lambda>m x. if snd m < snd x then x else m) m xs) \<and>
      (\<forall>y\<in>set ys. snd y < snd (foldl (\<lambda>m x. if snd m < snd x then x else m) m xs)) \<and>
      (\<forall>z\<in>set zs. snd z \<le> snd (foldl (\<lambda>m x. if snd m < snd x then x else m) m xs)))"
proof (induction xs arbitrary: m)
  case Nil
  then show ?case by simp
next
  case (Cons x xs)
  let ?f = "\<lambda>m x. if snd m < snd x then x else m"
  show ?case
  proof (cases "snd m < snd x")
    case True
    then have e: "foldl ?f m (x # xs) = foldl ?f x xs" by simp
    from Cons.IH [of x] show ?thesis
    proof
      assume a: "foldl ?f x xs = x \<and> (\<forall>y\<in>set xs. snd y \<le> snd x)"
      have "x # xs = [] @ foldl ?f m (x # xs) # xs \<and>
        snd m < snd (foldl ?f m (x # xs)) \<and>
        (\<forall>y\<in>set []. snd y < snd (foldl ?f m (x # xs))) \<and>
        (\<forall>z\<in>set xs. snd z \<le> snd (foldl ?f m (x # xs)))"
        using a e True by simp
      then show ?thesis by blast
    next
      assume "\<exists>ys zs. xs = ys @ foldl ?f x xs # zs \<and> snd x < snd (foldl ?f x xs) \<and>
        (\<forall>y\<in>set ys. snd y < snd (foldl ?f x xs)) \<and> (\<forall>z\<in>set zs. snd z \<le> snd (foldl ?f x xs))"
      then obtain ys zs where b: "xs = ys @ foldl ?f x xs # zs" "snd x < snd (foldl ?f x xs)"
        "\<forall>y\<in>set ys. snd y < snd (foldl ?f x xs)" "\<forall>z\<in>set zs. snd z \<le> snd (foldl ?f x xs)"
        by blast
      have "x # xs = (x # ys) @ foldl ?f m (x # xs) # zs" using b(1) e by simp
      moreover have "snd m < snd (foldl ?f m (x # xs))" using b(2) True e by auto
      moreover have "\<forall>y\<in>set (x # ys). snd y < snd (foldl ?f m (x # xs))"
        using b(2,3) e by simp
      moreover have "\<forall>z\<in>set zs. snd z \<le> snd (foldl ?f m (x # xs))"
        using b(4) e by simp
      ultimately show ?thesis by blast
    qed
  next
    case False
    then have e: "foldl ?f m (x # xs) = foldl ?f m xs" by simp
    from Cons.IH [of m] show ?thesis
    proof
      assume a: "foldl ?f m xs = m \<and> (\<forall>y\<in>set xs. snd y \<le> snd m)"
      with e False show ?thesis by auto
    next
      assume "\<exists>ys zs. xs = ys @ foldl ?f m xs # zs \<and> snd m < snd (foldl ?f m xs) \<and>
        (\<forall>y\<in>set ys. snd y < snd (foldl ?f m xs)) \<and> (\<forall>z\<in>set zs. snd z \<le> snd (foldl ?f m xs))"
      then obtain ys zs where b: "xs = ys @ foldl ?f m xs # zs" "snd m < snd (foldl ?f m xs)"
        "\<forall>y\<in>set ys. snd y < snd (foldl ?f m xs)" "\<forall>z\<in>set zs. snd z \<le> snd (foldl ?f m xs)"
        by blast
      have "x # xs = (x # ys) @ foldl ?f m (x # xs) # zs" using b(1) e by simp
      moreover have "snd m < snd (foldl ?f m (x # xs))" using b(2) e by simp
      moreover have "\<forall>y\<in>set (x # ys). snd y < snd (foldl ?f m (x # xs))"
        using b(2,3) False e by auto
      moreover have "\<forall>z\<in>set zs. snd z \<le> snd (foldl ?f m (x # xs))"
        using b(4) e by simp
      ultimately show ?thesis by blast
    qed
  qed
qed

lemma py_max_count_first:
  assumes "xs \<noteq> []"
  shows "\<exists>ys zs. xs = ys @ py_max_count xs # zs \<and>
      (\<forall>y\<in>set ys. snd y < snd (py_max_count xs)) \<and>
      (\<forall>z\<in>set zs. snd z \<le> snd (py_max_count xs))"
proof -
  obtain x rest where xs: "xs = x # rest" using assms by (cases xs) auto
  let ?f = "\<lambda>m x. if snd m < snd x then x else m"
  have pm: "py_max_count xs = foldl ?f x rest" by (simp add: py_max_count_def xs)
  from foldl_max_spec [of x rest] show ?thesis
  proof
    assume a: "foldl ?f x rest = x \<and> (\<forall>y\<in>set rest. snd y \<le> snd x)"
    have "xs = [] @ py_max_count xs # rest \<and>
      (\<forall>y\<in>set []. snd y < snd (py_max_count xs)) \<and>
      (\<forall>z\<in>set rest. snd z \<le> snd (py_max_count xs))"
      using a pm xs by simp
    then show ?thesis by blast
  next
    assume "\<exists>ys zs. rest = ys @ foldl ?f x rest # zs \<and> snd x < snd (foldl ?f x rest) \<and>
        (\<forall>y\<in>set ys. snd y < snd (foldl ?f x rest)) \<and> (\<forall>z\<in>set zs. snd z \<le> snd (foldl ?f x rest))"
    then obtain ys zs where b: "rest = ys @ foldl ?f x rest # zs" "snd x < snd (foldl ?f x rest)"
        "\<forall>y\<in>set ys. snd y < snd (foldl ?f x rest)" "\<forall>z\<in>set zs. snd z \<le> snd (foldl ?f x rest)"
      by blast
    have "xs = (x # ys) @ py_max_count xs # zs" using b(1) pm xs by simp
    moreover have "\<forall>y\<in>set (x # ys). snd y < snd (py_max_count xs)" using b(2,3) pm by simp
    moreover have "\<forall>z\<in>set zs. snd z \<le> snd (py_max_count xs)" using b(4) pm by simp
    ultimately show ?thesis by blast
  qed
qed

lemma frequency_pairs:
  "foldl count_ruby [] (find_all [''ruby''] soup) =
   foldl (\<lambda>f k. counter_incr k f) [] (ruby_pairs soup)"
  by (simp add: foldl_count_ruby ruby_pairs_def)

lemma readings_for_base_mem:
  assumes "F = foldl (\<lambda>f k. counter_incr k f) [] pairs"
  shows "(r, c) \<in> set (map (\<lambda>((b, rd), count). (rd, count))
                       (filter (\<lambda>((b', rd), count). b' = b) F)) \<longleftrightarrow>
         (b, r) \<in> set pairs \<and> c = count_list pairs (b, r)"
proof -
  have d: "distinct (map fst F)"
    and m: "\<And>k. map_of F k = (if k \<in> set pairs then Some (count_list pairs k) else None)"
    using frequency_invariant [of pairs] assms by blast+
  have "(r, c) \<in> set (map (\<lambda>((b, rd), count). (rd, count))
                       (filter (\<lambda>((b', rd), count). b' = b) F)) \<longleftrightarrow> ((b, r), c) \<in> set F"
    by force
  also have "\<dots> \<longleftrightarrow> map_of F (b, r) = Some c"
    using d by simp
  also have "\<dots> \<longleftrightarrow> (b, r) \<in> set pairs \<and> c = count_list pairs (b, r)"
    using m by auto
  finally show ?thesis .
qed

lemma readings_for_base_sorted:
  assumes "F = foldl (\<lambda>f k. counter_incr k f) [] pairs"
  shows "sorted_wrt (\<lambda>x y. first_seen pairs (b, fst x) < first_seen pairs (b, fst y))
           (map (\<lambda>((b, rd), count). (rd, count))
              (filter (\<lambda>((b', rd), count). b' = b) F))"
proof -
  have o: "sorted_wrt (\<lambda>x y. first_seen pairs (fst x) < first_seen pairs (fst y)) F"
    using frequency_invariant [of pairs] assms by (simp add: sorted_wrt_map)
  have "sorted_wrt (\<lambda>x y. first_seen pairs (fst x) < first_seen pairs (fst y))
          (filter (\<lambda>((b', rd), count). b' = b) F)"
    using o by (rule sorted_wrt_filter)
  then have "sorted_wrt (\<lambda>x y. first_seen pairs (b, fst ((\<lambda>((b, rd), count). (rd, count)) x))
                               < first_seen pairs (b, fst ((\<lambda>((b, rd), count). (rd, count)) y)))
          (filter (\<lambda>((b', rd), count). b' = b) F)"
    by (rule sorted_wrt_mono_rel [rotated]) auto
  then show ?thesis by (simp add: sorted_wrt_map)
qed

lemma extract_ruby_dictionary_unfold:
  "extract_ruby_dictionary soup b =
     (if b \<in> fst ` set (ruby_pairs soup) then
        Some (fst (py_max_count
          (map (\<lambda>((b, rd), count). (rd, count))
             (filter (\<lambda>((b', rd), count). b' = b)
                (foldl (\<lambda>f k. counter_incr k f) [] (ruby_pairs soup))))))
      else None)"
proof -
  define F where "F = foldl (\<lambda>f k. counter_incr k f) [] (ruby_pairs soup)"
  have keys: "set (map fst F) = set (ruby_pairs soup)"
    using frequency_invariant [of "ruby_pairs soup"] by (simp add: F_def)
  have bt: "set (map (\<lambda>((base, rd), count). base) F) = fst ` set (ruby_pairs soup)"
  proof -
    have "map (\<lambda>((base, rd), count). base) F = map fst (map fst F)"
      by (simp add: case_prod_beta)
    then show ?thesis using keys by (simp only: set_map)
  qed
  have ne: "b \<in> fst ` set (ruby_pairs soup) \<Longrightarrow>
      map (\<lambda>((b, rd), count). (rd, count)) (filter (\<lambda>((b', rd), count). b' = b) F) \<noteq> []"
  proof -
    assume "b \<in> fst ` set (ruby_pairs soup)"
    then obtain r where "(b, r) \<in> set (ruby_pairs soup)" by force
    then have "(r, count_list (ruby_pairs soup) (b, r)) \<in>
        set (map (\<lambda>((b, rd), count). (rd, count)) (filter (\<lambda>((b', rd), count). b' = b) F))"
      using readings_for_base_mem [OF F_def] by blast
    then show ?thesis by (metis empty_iff empty_set)
  qed
  show ?thesis
    using ne bt
    by (simp add: extract_ruby_dictionary_def frequency_pairs Let_def F_def [symmetric])
qed

lemma count_list_pos: "x \<in> set xs \<Longrightarrow> 0 < count_list xs x"
  by (induction xs) auto

lemma count_list_zero: "x \<notin> set xs \<Longrightarrow> count_list xs x = 0"
  by (induction xs) auto

text \<open>
  C3 (as amended). The dictionary \<open>extract_ruby_dictionary\<close> builds for one document
  has an entry for a term exactly when the document has a pair for it; the reading of the
  entry is one the document pairs with the term, no reading is paired with the term more
  often in the document, and a different reading that is paired with it as often is first
  seen later in the document. Over the documents of a book, \<open>build_name_dictionary\<close>
  takes for a term the entry of the last document that has one: counts are not added up
  across documents. A document that cannot be parsed changes nothing.
\<close>

theorem name_dictionary_most_frequent:
  "(case extract_ruby_dictionary soup b of
      None \<Rightarrow> b \<notin> fst ` set (ruby_pairs soup)
    | Some r \<Rightarrow>
        (b, r) \<in> set (ruby_pairs soup) \<and>
        (\<forall>r'. count_list (ruby_pairs soup) (b, r') \<le> count_list (ruby_pairs soup) (b, r)) \<and>
        (\<forall>r'. r' \<noteq> r \<and> count_list (ruby_pairs soup) (b, r') = count_list (ruby_pairs soup) (b, r)
           \<longrightarrow> first_seen (ruby_pairs soup) (b, r) < first_seen (ruby_pairs soup) (b, r'))) \<and>
   build_name_dictionary (documents @ [Some soup]) b =
     (case extract_ruby_dictionary soup b of
        Some r \<Rightarrow> Some r
      | None \<Rightarrow> build_name_dictionary documents b) \<and>
   build_name_dictionary (documents @ [None]) = build_name_dictionary documents"
proof -
  define pairs where "pairs = ruby_pairs soup"
  define F where "F = foldl (\<lambda>f k. counter_incr k f) [] pairs"
  define Rb where "Rb = map (\<lambda>((b, rd), count). (rd, count))
                          (filter (\<lambda>((b', rd), count). b' = b) F)"
  have unf: "extract_ruby_dictionary soup b =
      (if b \<in> fst ` set pairs then Some (fst (py_max_count Rb)) else None)"
    using extract_ruby_dictionary_unfold [of soup b] by (simp add: pairs_def F_def Rb_def)
  have first: "(case extract_ruby_dictionary soup b of
      None \<Rightarrow> b \<notin> fst ` set pairs
    | Some r \<Rightarrow>
        (b, r) \<in> set pairs \<and>
        (\<forall>r'. count_list pairs (b, r') \<le> count_list pairs (b, r)) \<and>
        (\<forall>r'. r' \<noteq> r \<and> count_list pairs (b, r') = count_list pairs (b, r)
           \<longrightarrow> first_seen pairs (b, r) < first_seen pairs (b, r')))"
  proof (cases "b \<in> fst ` set pairs")
    case False
    with unf show ?thesis by simp
  next
    case True
    then obtain r0 where r0: "(b, r0) \<in> set pairs" by force
    have mem: "\<And>r c. (r, c) \<in> set Rb \<longleftrightarrow> (b, r) \<in> set pairs \<and> c = count_list pairs (b, r)"
      unfolding Rb_def using readings_for_base_mem [OF F_def] by blast
    from r0 mem have "Rb \<noteq> []" by force
    from py_max_count_first [OF this] obtain ys zs where
      sp: "Rb = ys @ py_max_count Rb # zs"
          "\<forall>y\<in>set ys. snd y < snd (py_max_count Rb)"
          "\<forall>z\<in>set zs. snd z \<le> snd (py_max_count Rb)" by blast
    obtain r c where mx: "py_max_count Rb = (r, c)" by (cases "py_max_count Rb")
    from sp(1) mx have "(r, c) \<in> set Rb" by (metis in_set_conv_decomp)
    with mem have rin: "(b, r) \<in> set pairs" and c: "c = count_list pairs (b, r)" by auto
    have le: "\<forall>r'. count_list pairs (b, r') \<le> count_list pairs (b, r)"
    proof
      fix r'
      show "count_list pairs (b, r') \<le> count_list pairs (b, r)"
      proof (cases "(b, r') \<in> set pairs")
        case False
        then show ?thesis by (simp add: count_list_zero)
      next
        case True
        with mem have "(r', count_list pairs (b, r')) \<in> set Rb" by simp
        then have "(r', count_list pairs (b, r')) \<in> set ys \<union> {(r, c)} \<union> set zs"
          using sp(1) mx by (metis Un_insert_right append_Cons append_Nil list.simps(15) set_append sup_bot.right_neutral Un_assoc insert_is_Un)
        with sp(2,3) mx c show ?thesis by force
      qed
    qed
    have srt: "sorted_wrt (\<lambda>x y. first_seen pairs (b, fst x) < first_seen pairs (b, fst y)) Rb"
      unfolding Rb_def using readings_for_base_sorted [OF F_def] .
    have tie: "\<forall>r'. r' \<noteq> r \<and> count_list pairs (b, r') = count_list pairs (b, r)
           \<longrightarrow> first_seen pairs (b, r) < first_seen pairs (b, r')"
    proof (intro allI impI)
      fix r' assume a: "r' \<noteq> r \<and> count_list pairs (b, r') = count_list pairs (b, r)"
      from rin have "0 < count_list pairs (b, r)" by (rule count_list_pos)
      with a have "(b, r') \<in> set pairs" using count_list_zero [of "(b, r')" pairs] by force
      with mem a c have in_Rb: "(r', c) \<in> set Rb" by simp
      have "(r', c) \<notin> set ys" using sp(2) mx by force
      moreover have "(r', c) \<noteq> (r, c)" using a by simp
      ultimately have "(r', c) \<in> set zs" using in_Rb sp(1) mx
        by (metis Un_iff set_append set_ConsD)
      moreover have "sorted_wrt (\<lambda>x y. first_seen pairs (b, fst x) < first_seen pairs (b, fst y))
                       ((r, c) # zs)"
        using srt sp(1) mx by (metis sorted_wrt_append)
      ultimately show "first_seen pairs (b, r) < first_seen pairs (b, r')" by force
    qed
    from unf True mx rin le tie show ?thesis by simp
  qed
  have second: "build_name_dictionary (documents @ [Some soup]) b =
     (case extract_ruby_dictionary soup b of
        Some r \<Rightarrow> Some r
      | None \<Rightarrow> build_name_dictionary documents b)"
  proof -
    have "build_name_dictionary (documents @ [Some soup]) =
        build_name_dictionary documents ++ extract_ruby_dictionary soup"
      by (simp add: build_name_dictionary_def)
    then show ?thesis by (simp add: map_add_def split: option.splits)
  qed
  have third: "build_name_dictionary (documents @ [None]) = build_name_dictionary documents"
    by (simp add: build_name_dictionary_def)
  from first second third show ?thesis unfolding pairs_def by blast
qed

lemmas dict_eval = extract_ruby_dictionary_def count_ruby_def py_max_count_def ruby_elem_def
  ruby_pairs_def Let_def build_name_dictionary_def map_add_def

lemma pairs_kami_shin_kami: "ruby_pairs doc_kami_shin_kami =
    [([0x795E], [0x304B, 0x307F]), ([0x795E], [0x3057, 0x3093]), ([0x795E], [0x304B, 0x307F])]"
  by (simp add: dict_eval doc_kami_shin_kami_def)

lemma dict_kami_shin_kami:
  "extract_ruby_dictionary doc_kami_shin_kami [0x795E] = Some [0x304B, 0x307F]"
  by (simp add: dict_eval doc_kami_shin_kami_def)

lemma dict_kami_twice: "extract_ruby_dictionary doc_kami_twice [0x795E] = Some [0x304B, 0x307F]"
  by (simp add: dict_eval doc_kami_twice_def)

lemma dict_shin_once: "extract_ruby_dictionary doc_shin_once [0x795E] = Some [0x3057, 0x3093]"
  by (simp add: dict_eval doc_shin_once_def)

text \<open>
  The theorem at a document in which U+795E is read ka-mi, then shi-n, then ka-mi: the
  dictionary of the document reads it ka-mi, counted twice against once, and so does the
  dictionary of a book whose last document it is.
\<close>

theorem name_dictionary_most_frequent_witness:
  "extract_ruby_dictionary doc_kami_shin_kami [0x795E] = Some [0x304B, 0x307F] \<and>
   count_list (ruby_pairs doc_kami_shin_kami) ([0x795E], [0x304B, 0x307F]) = 2 \<and>
   count_list (ruby_pairs doc_kami_shin_kami) ([0x795E], [0x3057, 0x3093]) = 1 \<and>
   build_name_dictionary ([Some doc_shin_once] @ [Some doc_kami_shin_kami]) [0x795E] =
     Some [0x304B, 0x307F]"
  using name_dictionary_most_frequent [where soup = doc_kami_shin_kami and b = "[0x795E]"
      and documents = "[Some doc_shin_once]"]
  by (simp add: dict_kami_shin_kami pairs_kami_shin_kami)

text \<open>
  C3 as stated fails on a book of two documents, the first with U+795E read ka-mi twice
  and the second with U+795E read shi-n once: over the whole book ka-mi is counted twice
  and shi-n once, and the dictionary built for the book reads U+795E shi-n.
\<close>

theorem name_dictionary_most_frequent_counterexample:
  "build_name_dictionary [Some doc_kami_twice, Some doc_shin_once] [0x795E] = Some [0x3057, 0x3093] \<and>
   count_list (ruby_pairs doc_kami_twice @ ruby_pairs doc_shin_once) ([0x795E], [0x304B, 0x307F]) = 2 \<and>
   count_list (ruby_pairs doc_kami_twice @ ruby_pairs doc_shin_once) ([0x795E], [0x3057, 0x3093]) = 1"
  by (simp add: build_name_dictionary_def map_add_def dict_kami_twice dict_shin_once)
     (simp add: dict_eval doc_kami_twice_def doc_shin_once_def)

text \<open>
  C9, on the failing input: a document whose one ruby element has the kana U+3042 as base
  and the same kana as reading. \<open>extract_ruby_dictionary\<close> stores the pair, base equal to
  reading.
\<close>

theorem extract_ruby_dictionary_identical_pair:
  "ruby_pairs doc_a_a = [([0x3042], [0x3042])] \<and>
   extract_ruby_dictionary doc_a_a [0x3042] = Some [0x3042]"
  by (simp add: dict_eval doc_a_a_def)

section \<open>The unfiltered extraction\<close>

text \<open>
  Every pair that \<open>extract_all_ruby_from_epub\<close> stores has a base different from its
  reading and a reading that is not empty: this extraction compares the two before it
  stores a pair, which \<open>extract_ruby_dictionary\<close> does not.
\<close>

lemma all_ruby_step_invariant:
  "\<forall>(k, r)\<in>set (snd state). k \<noteq> r \<and> r \<noteq> [] \<Longrightarrow>
   \<forall>(k, r)\<in>set (snd (all_ruby_step state ruby)). k \<noteq> r \<and> r \<noteq> []"
  by (cases state) (auto simp: all_ruby_step_def Let_def split: option.splits)

lemma foldl_all_ruby_step_invariant:
  "\<forall>(k, r)\<in>set (snd state). k \<noteq> r \<and> r \<noteq> [] \<Longrightarrow>
   \<forall>(k, r)\<in>set (snd (foldl all_ruby_step state rubies)). k \<noteq> r \<and> r \<noteq> []"
proof (induction rubies arbitrary: state)
  case Nil
  then show ?case by simp
next
  case (Cons x rubies)
  from all_ruby_step_invariant [OF Cons.prems]
  have "\<forall>(k, r)\<in>set (snd (all_ruby_step state x)). k \<noteq> r \<and> r \<noteq> []" .
  from Cons.IH [OF this] show ?case by simp
qed

lemma extract_all_ruby_pairs_differ:
  "\<forall>(k, r)\<in>set (extract_all_ruby_from_epub items). k \<noteq> r \<and> r \<noteq> []"
proof -
  have "\<And>acc. \<forall>(k, r)\<in>set acc. k \<noteq> r \<and> r \<noteq> [] \<Longrightarrow>
     \<forall>(k, r)\<in>set (foldl (\<lambda>all_pairs item.
              case item of
                None \<Rightarrow> all_pairs
              | Some (soup, contents) \<Rightarrow>
                  snd (foldl all_ruby_step (contents, all_pairs) (map fst (find_all_ruby soup))))
       acc items). k \<noteq> r \<and> r \<noteq> []"
  proof (induction items)
    case Nil
    then show ?case by simp
  next
    case (Cons it items)
    show ?case
    proof (cases it)
      case None
      with Cons show ?thesis by simp
    next
      case (Some sc)
      obtain soup contents where sc: "sc = (soup, contents)" by (cases sc)
      have "\<forall>(k, r)\<in>set (snd (foldl all_ruby_step (contents, acc) (map fst (find_all_ruby soup)))).
          k \<noteq> r \<and> r \<noteq> []"
        using foldl_all_ruby_step_invariant [of "(contents, acc)"] Cons.prems by simp
      from Cons.IH [OF this] show ?thesis by (simp add: Some sc)
    qed
  qed
  from this [of "[]"] show ?thesis by (simp add: extract_all_ruby_from_epub_def)
qed

section \<open>LineRepair\<close>

subsection \<open>Stripping\<close>

lemma lstrip_decomp: "s = takeWhile py_isspace s @ lstrip s"
  by (simp add: lstrip_def)

lemma rstrip_decomp: "s = rstrip s @ rev (takeWhile py_isspace (rev s))"
proof -
  have "rev (dropWhile py_isspace (rev s)) @ rev (takeWhile py_isspace (rev s)) =
        rev (takeWhile py_isspace (rev s) @ dropWhile py_isspace (rev s))"
    by (simp only: rev_append)
  also have "\<dots> = s" by simp
  finally show ?thesis by (simp add: rstrip_def)
qed

lemma rstrip_last: "rstrip s \<noteq> [] \<Longrightarrow> \<not> py_isspace (last (rstrip s))"
proof -
  assume "rstrip s \<noteq> []"
  then have ne: "dropWhile py_isspace (rev s) \<noteq> []" by (simp add: rstrip_def)
  then have "\<not> py_isspace (hd (dropWhile py_isspace (rev s)))" by (rule hd_dropWhile)
  with ne show ?thesis by (simp add: rstrip_def last_rev)
qed

lemma lstrip_hd: "lstrip s \<noteq> [] \<Longrightarrow> \<not> py_isspace (hd (lstrip s))"
  unfolding lstrip_def by (rule hd_dropWhile)

lemma rstrip_prefix_hd: "rstrip t \<noteq> [] \<Longrightarrow> hd (rstrip t) = hd t"
  using rstrip_decomp [of t] by (metis hd_append2)

lemma strip_hd: "strip s \<noteq> [] \<Longrightarrow> \<not> py_isspace (hd (strip s))"
proof -
  assume ne: "strip s \<noteq> []"
  then have "rstrip (lstrip s) \<noteq> []" by (simp add: strip_def)
  then have h: "hd (rstrip (lstrip s)) = hd (lstrip s)" by (rule rstrip_prefix_hd)
  from ne have "lstrip s \<noteq> []" by (auto simp: strip_def rstrip_def)
  then have "\<not> py_isspace (hd (lstrip s))" by (rule lstrip_hd)
  with h show ?thesis by (simp add: strip_def)
qed

lemma strip_last: "strip s \<noteq> [] \<Longrightarrow> \<not> py_isspace (last (strip s))"
  unfolding strip_def by (rule rstrip_last)

lemma rstrip_id: "m \<noteq> [] \<Longrightarrow> \<not> py_isspace (last m) \<Longrightarrow> rstrip m = m"
proof -
  assume "m \<noteq> []" "\<not> py_isspace (last m)"
  then have "rev m \<noteq> []" "\<not> py_isspace (hd (rev m))" by (simp_all add: hd_rev)
  then have "dropWhile py_isspace (rev m) = rev m" by (cases "rev m") auto
  then show ?thesis by (simp add: rstrip_def)
qed

lemma lstrip_spaces: "\<forall>c\<in>set w. py_isspace c \<Longrightarrow> m \<noteq> [] \<Longrightarrow> \<not> py_isspace (hd m) \<Longrightarrow>
    lstrip (w @ m) = m"
proof -
  assume w: "\<forall>c\<in>set w. py_isspace c" and m: "m \<noteq> []" "\<not> py_isspace (hd m)"
  from w have "dropWhile py_isspace (w @ m) = dropWhile py_isspace m"
    by (simp add: dropWhile_append2)
  also from m have "\<dots> = m" by (cases m) auto
  finally show ?thesis by (simp add: lstrip_def)
qed

lemma strip_decomp:
  assumes "strip s \<noteq> []"
  shows "\<exists>w. (\<forall>c\<in>set w. py_isspace c) \<and> rstrip s = w @ strip s"
proof -
  define w where "w = takeWhile py_isspace s"
  define t where "t = lstrip s"
  define w2 where "w2 = rev (takeWhile py_isspace (rev t))"
  define m where "m = strip s"
  have s: "s = w @ t" unfolding w_def t_def by (rule lstrip_decomp)
  have t: "t = m @ w2" unfolding w2_def m_def strip_def t_def by (rule rstrip_decomp)
  have w: "\<forall>c\<in>set w. py_isspace c" unfolding w_def by (auto dest: set_takeWhileD)
  have w2: "\<forall>c\<in>set w2. py_isspace c" unfolding w2_def by (auto dest: set_takeWhileD)
  have mne: "m \<noteq> []" and ml: "\<not> py_isspace (last m)"
    using assms strip_last [OF assms] by (simp_all add: m_def)
  have "s = w @ m @ w2" using s t by simp
  then have rs: "rev s = rev w2 @ (rev m @ rev w)" by simp
  have "dropWhile py_isspace (rev s) = dropWhile py_isspace (rev m @ rev w)"
    unfolding rs using dropWhile_append2 [of "rev w2" py_isspace "rev m @ rev w"] w2 by simp
  moreover have "\<not> py_isspace (hd (rev m @ rev w))" "rev m @ rev w \<noteq> []"
    using mne ml by (simp_all add: hd_rev)
  then have "dropWhile py_isspace (rev m @ rev w) = rev m @ rev w"
    by (cases "rev m @ rev w") auto
  ultimately have "rstrip s = w @ m" by (simp add: rstrip_def)
  with w show ?thesis unfolding m_def by blast
qed

lemma strip_merge:
  assumes a: "strip a \<noteq> []" and b: "strip b \<noteq> []"
  shows "strip (rstrip a @ strip b) = strip a @ strip b"
proof -
  from strip_decomp [OF a] obtain w where w: "\<forall>c\<in>set w. py_isspace c" "rstrip a = w @ strip a"
    by blast
  have ne: "strip a @ strip b \<noteq> []" using a by simp
  have h: "\<not> py_isspace (hd (strip a @ strip b))" using a strip_hd [OF a] by simp
  have l: "\<not> py_isspace (last (strip a @ strip b))" using b strip_last [OF b] by simp
  have "lstrip (rstrip a @ strip b) = strip a @ strip b"
    using lstrip_spaces [OF w(1) ne h] w(2) by simp
  then show ?thesis using rstrip_id [OF ne l] by (simp add: strip_def)
qed

lemma set_rstrip: "set (rstrip s) \<subseteq> set s"
  using rstrip_decomp [of s] by (metis Un_upper1 set_append)

lemma set_lstrip: "set (lstrip s) \<subseteq> set s"
  unfolding lstrip_def by (auto dest: set_dropWhileD)

lemma set_strip: "set (strip s) \<subseteq> set s"
  unfolding strip_def using set_rstrip [of "lstrip s"] set_lstrip [of s] by blast

subsection \<open>The merge rules\<close>

lemma should_merge_nonblank:
  "should_merge_with_next a b \<Longrightarrow> strip a \<noteq> [] \<and> strip b \<noteq> []"
  by (auto simp: should_merge_with_next_def Let_def split: if_splits)

lemma prev_implies_next:
  "should_merge_with_prev a b \<Longrightarrow> should_merge_with_next a b"
  by (auto simp: should_merge_with_prev_def should_merge_with_next_def Let_def split: if_splits)

lemma kanji_1_3_prefix: "q \<noteq> [] \<Longrightarrow> kanji_1_3 (q @ x) \<Longrightarrow> kanji_1_3 q"
  by (cases q) (auto simp: kanji_1_3_def)

lemma KANJI_PATTERN_prefix:
  assumes q: "q \<noteq> []" and x: "x \<noteq> []" and k: "KANJI_PATTERN (q @ x)"
  shows "KANJI_PATTERN q"
proof -
  from k have "kanji_1_3 (q @ x) \<or> kanji_1_3 (butlast (q @ x))"
    by (auto simp: KANJI_PATTERN_def)
  then show ?thesis
  proof
    assume "kanji_1_3 (q @ x)"
    from kanji_1_3_prefix [OF q this] show ?thesis by (simp add: KANJI_PATTERN_def)
  next
    assume "kanji_1_3 (butlast (q @ x))"
    with x have "kanji_1_3 (q @ butlast x)" by (simp add: butlast_append)
    from kanji_1_3_prefix [OF q this] show ?thesis by (simp add: KANJI_PATTERN_def)
  qed
qed

lemma HIRAGANA_START_prefix: "q \<noteq> [] \<Longrightarrow> HIRAGANA_START (q @ x) = HIRAGANA_START q"
  by (simp add: HIRAGANA_START_def)

lemma KANJI_START_prefix: "q \<noteq> [] \<Longrightarrow> KANJI_START (q @ x) = KANJI_START q"
  by (simp add: KANJI_START_def)

lemma startswith_append: "startswith q m \<Longrightarrow> startswith (q @ x) m"
proof -
  assume "startswith q m"
  then have t: "take (length m) q = m" by (simp add: startswith_def)
  then have "length m \<le> length q" by (metis length_take min.cobounded2 min_def nat_le_linear take_all)
  with t show "startswith (q @ x) m" by (simp add: startswith_def)
qed

lemma startswith_any_append: "startswith_any q ms \<Longrightarrow> startswith_any (q @ x) ms"
  by (auto simp: startswith_any_def list_ex_iff intro: startswith_append)

lemma should_merge_next_mono:
  assumes sq: "strip q' = strip q @ x" and q: "strip q \<noteq> []" and x: "x \<noteq> []"
    and m: "should_merge_with_next p q'"
  shows "should_merge_with_next p q"
proof -
  define P where "P = strip p"
  define Q where "Q = strip q"
  have kp: "KANJI_PATTERN (Q @ x) \<Longrightarrow> KANJI_PATTERN Q"
    using KANJI_PATTERN_prefix [of Q x] q x by (simp add: Q_def)
  have hs: "HIRAGANA_START (Q @ x) = HIRAGANA_START Q"
    using q by (simp add: HIRAGANA_START_prefix Q_def)
  have ks: "KANJI_START (Q @ x) = KANJI_START Q"
    using q by (simp add: KANJI_START_prefix Q_def)
  have sw: "\<And>ms. \<not> startswith_any (Q @ x) ms \<Longrightarrow> \<not> startswith_any Q ms"
    using startswith_any_append by blast
  from m have pne: "P \<noteq> []" using should_merge_nonblank [OF m] by (simp add: P_def)
  from m have rules:
    "(KANJI_PATTERN P \<and> (HIRAGANA_START (Q @ x) \<or> KANJI_PATTERN (Q @ x))) \<or>
     (KANJI_PATTERN (Q @ x) \<and> \<not> endswith_any P punctuation \<and> \<not> startswith_any (Q @ x) markers) \<or>
     (KANJI_END P \<and> HIRAGANA_START (Q @ x) \<and> \<not> startswith_any (Q @ x) (markers @ [[0x3E, 0x3E]])) \<or>
     (\<not> endswith_any P sentence_end \<and> KANJI_PATTERN (Q @ x) \<and> \<not> startswith_any (Q @ x) markers) \<or>
     (endswith P [0x3001] \<and> KANJI_START (Q @ x) \<and> \<not> startswith_any (Q @ x) markers)"
    unfolding should_merge_with_next_def Let_def sq P_def [symmetric] Q_def [symmetric]
    by (auto split: if_splits)
  then have
    "(KANJI_PATTERN P \<and> (HIRAGANA_START Q \<or> KANJI_PATTERN Q)) \<or>
     (KANJI_PATTERN Q \<and> \<not> endswith_any P punctuation \<and> \<not> startswith_any Q markers) \<or>
     (KANJI_END P \<and> HIRAGANA_START Q \<and> \<not> startswith_any Q (markers @ [[0x3E, 0x3E]])) \<or>
     (\<not> endswith_any P sentence_end \<and> KANJI_PATTERN Q \<and> \<not> startswith_any Q markers) \<or>
     (endswith P [0x3001] \<and> KANJI_START Q \<and> \<not> startswith_any Q markers)"
    using kp hs ks sw by metis
  with pne q show ?thesis
    unfolding should_merge_with_next_def Let_def P_def [symmetric] Q_def [symmetric]
    by auto
qed

lemma merge_step_mono:
  assumes "should_merge_with_next c n" "should_merge_with_next p (rstrip c @ strip n)"
  shows "should_merge_with_next p c"
proof -
  from should_merge_nonblank [OF assms(1)] have c: "strip c \<noteq> []" and n: "strip n \<noteq> []"
    by simp_all
  from strip_merge [OF c n] have "strip (rstrip c @ strip n) = strip c @ strip n" .
  from should_merge_next_mono [OF this c n assms(2)] show ?thesis .
qed

lemma merge_with_next_spec:
  "merge_with_next c rest ch = (c', rest', ch') \<Longrightarrow>
   (\<forall>p. should_merge_with_next p c' \<longrightarrow> should_merge_with_next p c) \<and>
   (rest' \<noteq> [] \<longrightarrow> \<not> should_merge_with_next c' (hd rest'))"
proof (induction rest arbitrary: c ch)
  case Nil
  then show ?case by simp
next
  case (Cons n rest)
  show ?case
  proof (cases "should_merge_with_next c n")
    case True
    with Cons.prems have "merge_with_next (rstrip c @ strip n) rest True = (c', rest', ch')"
      by simp
    from Cons.IH [OF this] have
      ih: "\<forall>p. should_merge_with_next p c' \<longrightarrow> should_merge_with_next p (rstrip c @ strip n)"
      and ex: "rest' \<noteq> [] \<longrightarrow> \<not> should_merge_with_next c' (hd rest')" by blast+
    from ih merge_step_mono [OF True]
    have "\<forall>p. should_merge_with_next p c' \<longrightarrow> should_merge_with_next p c" by blast
    with ex show ?thesis by blast
  next
    case False
    with Cons.prems show ?thesis by auto
  qed
qed

subsection \<open>One pass\<close>

lemma pass_loop_stable:
  "stable result \<Longrightarrow>
   (result \<noteq> [] \<and> rest \<noteq> [] \<longrightarrow> \<not> should_merge_with_next (last result) (hd rest)) \<Longrightarrow>
   stable (fst (pass_loop i rest result ch))"
proof (induction i rest result ch rule: pass_loop.induct)
  case (1 i result changed)
  then show ?case by (simp add: pass_loop.simps)
next
  case (2 i current_line rest result changed)
  have noprev: "\<not> (i > 0 \<and> result \<noteq> [] \<and> should_merge_with_prev (last result) current_line)"
    using "2.prems"(2) prev_implies_next by auto
  obtain c' rest' ch' where mw: "merge_with_next current_line rest changed = (c', rest', ch')"
    by (metis prod.exhaust)
  from merge_with_next_spec [OF mw] have
    mono: "\<forall>p. should_merge_with_next p c' \<longrightarrow> should_merge_with_next p current_line"
    and ex: "rest' \<noteq> [] \<longrightarrow> \<not> should_merge_with_next c' (hd rest')" by blast+
  have st: "stable (result @ [c'])"
  proof (cases "result = []")
    case True
    then show ?thesis by simp
  next
    case False
    with "2.prems"(2) have "\<not> should_merge_with_next (last result) current_line" by simp
    with mono have "\<not> should_merge_with_next (last result) c'" by blast
    with "2.prems"(1) False show ?thesis by (simp add: successively_append_iff)
  qed
  have nx: "result @ [c'] \<noteq> [] \<and> rest' \<noteq> [] \<longrightarrow>
      \<not> should_merge_with_next (last (result @ [c'])) (hd rest')"
    using ex by simp
  have "stable (fst (pass_loop (i + (length rest - length rest') + 1) rest' (result @ [c']) ch'))"
    using "2.IH"(2) [OF noprev mw [symmetric] refl st nx] .
  then show ?case
    using noprev mw by (subst pass_loop.simps) auto
qed

lemma pass_loop_fixed:
  "stable rest \<Longrightarrow>
   (result \<noteq> [] \<and> rest \<noteq> [] \<longrightarrow> \<not> should_merge_with_next (last result) (hd rest)) \<Longrightarrow>
   pass_loop i rest result ch = (result @ rest, ch)"
proof (induction rest arbitrary: i result)
  case Nil
  then show ?case by (simp add: pass_loop.simps)
next
  case (Cons c rest)
  have noprev: "\<not> (i > 0 \<and> result \<noteq> [] \<and> should_merge_with_prev (last result) c)"
    using Cons.prems(2) prev_implies_next by auto
  have mw: "merge_with_next c rest ch = (c, rest, ch)"
    using Cons.prems(1) by (cases rest) auto
  have st: "stable rest" using Cons.prems(1) by (cases rest) auto
  have nx: "result @ [c] \<noteq> [] \<and> rest \<noteq> [] \<longrightarrow> \<not> should_merge_with_next (last (result @ [c])) (hd rest)"
    using Cons.prems(1) by (cases rest) auto
  have "pass_loop i (c # rest) result ch = pass_loop (i + 1) rest (result @ [c]) ch"
    using noprev mw by (subst pass_loop.simps) auto
  also have "\<dots> = ((result @ [c]) @ rest, ch)"
    using Cons.IH [OF st nx] .
  finally show ?case by simp
qed

lemma fix_passes_one_pass:
  "fix_passes (Suc n) ls = fst (pass_loop 0 ls [] False)"
proof -
  obtain r ch where p: "pass_loop 0 ls [] False = (r, ch)" by (metis prod.exhaust)
  have st: "stable r" using pass_loop_stable [of "[]" ls 0 False] p by simp
  have fixed: "pass_loop 0 r [] False = (r, False)"
    using pass_loop_fixed [OF st, of "[]" 0 False] by simp
  show ?thesis
  proof (cases ch)
    case False
    with p show ?thesis by simp
  next
    case True
    then have "fix_passes (Suc n) ls = fix_passes n r" using p by simp
    also have "\<dots> = r" using fixed by (cases n) auto
    finally show ?thesis using p by simp
  qed
qed

lemma fix_passes_stable: "stable (fix_passes (Suc n) ls)"
  unfolding fix_passes_one_pass using pass_loop_stable [of "[]" ls 0 False] by simp

lemma fix_passes_fixed: "stable ls \<Longrightarrow> fix_passes (Suc n) ls = ls"
  unfolding fix_passes_one_pass using pass_loop_fixed [of ls "[]" 0 False] by simp

subsection \<open>Splitting and joining\<close>

lemma split_on_no_sep: "\<forall>f\<in>set (split_on sep s). sep \<notin> set f"
proof (induction s)
  case Nil
  then show ?case by simp
next
  case (Cons c s)
  have ne: "split_on sep s \<noteq> []" by (induction s) auto
  then obtain f fs where fs: "split_on sep s = f # fs" by (cases "split_on sep s") auto
  with Cons show ?case by auto
qed

lemma split_on_append_sep:
  "sep \<notin> set l \<Longrightarrow> split_on sep (l @ sep # s) = l # split_on sep s"
  by (induction l) auto

lemma split_on_no_sep_id: "sep \<notin> set l \<Longrightarrow> split_on sep l = [l]"
  by (induction l) auto

lemma join_split: "join_lines (split_on NEWLINE s) = s"
proof (induction s)
  case Nil
  then show ?case by simp
next
  case (Cons c s)
  have ne: "split_on NEWLINE s \<noteq> []" by (induction s) auto
  then obtain f fs where fs: "split_on NEWLINE s = f # fs" by (cases "split_on NEWLINE s") auto
  with Cons show ?case by (cases fs) auto
qed

lemma split_join:
  "ls \<noteq> [] \<Longrightarrow> \<forall>l\<in>set ls. NEWLINE \<notin> set l \<Longrightarrow> split_on NEWLINE (join_lines ls) = ls"
proof (induction ls rule: join_lines.induct)
  case 1
  then show ?case by simp
next
  case (2 l)
  then show ?case by (simp add: split_on_no_sep_id)
next
  case (3 l l' ls)
  then show ?case by (simp add: split_on_append_sep)
qed

lemma merge_with_next_chars:
  "merge_with_next c rest ch = (c', rest', ch') \<Longrightarrow> x \<notin> set c \<Longrightarrow> \<forall>l\<in>set rest. x \<notin> set l \<Longrightarrow>
   x \<notin> set c' \<and> (\<forall>l\<in>set rest'. x \<notin> set l)"
proof (induction rest arbitrary: c ch)
  case Nil
  then show ?case by simp
next
  case (Cons n rest)
  show ?case
  proof (cases "should_merge_with_next c n")
    case True
    with Cons.prems(1) have m: "merge_with_next (rstrip c @ strip n) rest True = (c', rest', ch')"
      by simp
    have "x \<notin> set (rstrip c @ strip n)"
      using Cons.prems(2,3) set_rstrip [of c] set_strip [of n] by auto
    from Cons.IH [OF m this] Cons.prems(3) show ?thesis by simp
  next
    case False
    with Cons.prems show ?thesis by auto
  qed
qed

lemma pass_loop_chars:
  "\<forall>l\<in>set rest. x \<notin> set l \<Longrightarrow> \<forall>l\<in>set result. x \<notin> set l \<Longrightarrow>
   \<forall>l\<in>set (fst (pass_loop i rest result ch)). x \<notin> set l"
proof (induction i rest result ch rule: pass_loop.induct)
  case (1 i result changed)
  then show ?case by (simp add: pass_loop.simps)
next
  case (2 i current_line rest result changed)
  show ?case
  proof (cases "i > 0 \<and> result \<noteq> [] \<and> should_merge_with_prev (last result) current_line")
    case True
    have r: "\<forall>l\<in>set rest. x \<notin> set l" using "2.prems"(1) by simp
    have "x \<notin> set (last result @ strip current_line)"
      using True "2.prems" set_strip [of current_line] by auto
    moreover have "\<forall>l\<in>set (butlast result). x \<notin> set l"
      using "2.prems"(2) by (auto dest: in_set_butlastD)
    ultimately have "\<forall>l\<in>set (butlast result @ [last result @ strip current_line]). x \<notin> set l"
      by auto
    from "2.IH"(1) [OF True r this] True show ?thesis
      by (subst pass_loop.simps) simp
  next
    case False
    obtain c' rest' ch' where mw: "merge_with_next current_line rest changed = (c', rest', ch')"
      by (metis prod.exhaust)
    from merge_with_next_chars [OF mw, of x] "2.prems"(1)
    have c: "x \<notin> set c'" and r: "\<forall>l\<in>set rest'. x \<notin> set l" by auto
    from c "2.prems"(2) have "\<forall>l\<in>set (result @ [c']). x \<notin> set l" by auto
    from "2.IH"(2) [OF False mw [symmetric] refl r this] False mw show ?thesis
      by (subst pass_loop.simps) auto
  qed
qed

lemma pass_loop_nonempty:
  "rest \<noteq> [] \<or> result \<noteq> [] \<Longrightarrow> fst (pass_loop i rest result ch) \<noteq> []"
proof (induction i rest result ch rule: pass_loop.induct)
  case (1 i result changed)
  then show ?case by (simp add: pass_loop.simps)
next
  case (2 i current_line rest result changed)
  show ?case
  proof (cases "i > 0 \<and> result \<noteq> [] \<and> should_merge_with_prev (last result) current_line")
    case True
    from "2.IH"(1) [OF True] True show ?thesis
      by (subst pass_loop.simps) simp
  next
    case False
    obtain c' rest' ch' where mw: "merge_with_next current_line rest changed = (c', rest', ch')"
      by (metis prod.exhaust)
    from "2.IH"(2) [OF False mw [symmetric] refl] False mw show ?thesis
      by (subst pass_loop.simps) auto
  qed
qed

lemma stable_iff_no_merge: "successively no_merge ls \<longleftrightarrow> stable ls"
proof -
  have "no_merge = (\<lambda>a b. \<not> should_merge_with_next a b)"
    using prev_implies_next by (auto simp: no_merge_def fun_eq_iff)
  then show ?thesis by metis
qed

text \<open>
  C6. Repairing twice gives what repairing once gives, for every list of lines under the
  passes of \<open>fix_ruby_newlines\<close> and for every text under \<open>fix_ruby_newlines\<close> itself.
  One pass already reaches a list in which no two neighbouring lines merge, so the bound
  of five passes never cuts the repair short. Where no merge rule applies between any two
  neighbouring lines, the result is the input.
\<close>

theorem fix_ruby_newlines_idempotent:
  "fix_passes 5 (fix_passes 5 ls) = fix_passes 5 ls \<and>
   fix_ruby_newlines (fix_ruby_newlines content) = fix_ruby_newlines content \<and>
   (successively no_merge ls \<longrightarrow> fix_passes 5 ls = ls) \<and>
   (successively no_merge (split_on NEWLINE content) \<longrightarrow> fix_ruby_newlines content = content)"
proof -
  have five: "(5::nat) = Suc 4" by simp
  have a: "\<And>ls. fix_passes 5 (fix_passes 5 ls) = fix_passes 5 ls"
    unfolding five using fix_passes_fixed [OF fix_passes_stable] .
  have c: "\<And>ls. successively no_merge ls \<Longrightarrow> fix_passes 5 ls = ls"
    unfolding five stable_iff_no_merge by (rule fix_passes_fixed)
  define r where "r = fix_passes 5 (split_on NEWLINE content)"
  have r_eq: "r = fst (pass_loop 0 (split_on NEWLINE content) [] False)"
    unfolding r_def five by (rule fix_passes_one_pass)
  have sne: "split_on NEWLINE content \<noteq> []" by (induction content) auto
  have rne: "r \<noteq> []" unfolding r_eq using pass_loop_nonempty sne by blast
  have rnl: "\<forall>l\<in>set r. NEWLINE \<notin> set l"
    unfolding r_eq using pass_loop_chars [of "split_on NEWLINE content" NEWLINE "[]"]
      split_on_no_sep [of NEWLINE content] by simp
  have "fix_ruby_newlines (fix_ruby_newlines content) =
      join_lines (fix_passes 5 (split_on NEWLINE (join_lines r)))"
    by (simp add: fix_ruby_newlines_def r_def)
  also have "\<dots> = join_lines (fix_passes 5 r)" using split_join [OF rne rnl] by simp
  also have "\<dots> = join_lines r" unfolding r_def using a by simp
  finally have b: "fix_ruby_newlines (fix_ruby_newlines content) = fix_ruby_newlines content"
    by (simp add: fix_ruby_newlines_def r_def)
  have d: "successively no_merge (split_on NEWLINE content) \<longrightarrow> fix_ruby_newlines content = content"
    using c [of "split_on NEWLINE content"] by (simp add: fix_ruby_newlines_def join_split)
  from a [of ls] b c [of ls] d show ?thesis by blast
qed

lemmas rule_eval = should_merge_with_next_def should_merge_with_prev_def no_merge_def Let_def
  strip_def lstrip_def rstrip_def py_isspace_def
  KANJI_PATTERN_def kanji_1_3_def KANJI_END_def KANJI_START_def HIRAGANA_START_def
  kanji_class_def hiragana_class_def punctuation_def sentence_end_def markers_def
  startswith_any_def endswith_any_def startswith_def endswith_def NEWLINE_def

lemma fusuma_merges: "should_merge_with_next [0x8956] [0x3092, 0x958B, 0x3051]"
  by (simp add: rule_eval)

lemma fusuma_merge_with_next:
  "merge_with_next [0x8956] [[0x3092, 0x958B, 0x3051]] False = ([0x8956, 0x3092, 0x958B, 0x3051], [], True)"
  by (simp add: fusuma_merges) (simp add: strip_def lstrip_def rstrip_def py_isspace_def)

lemma fusuma_pass:
  "pass_loop 0 [[0x8956], [0x3092, 0x958B, 0x3051]] [] False = ([[0x8956, 0x3092, 0x958B, 0x3051]], True)"
  by (subst pass_loop.simps)
     (simp add: fusuma_merge_with_next pass_loop.simps(1) del: merge_with_next.simps)

lemma fusuma_fixed:
  "fix_ruby_newlines [0x8956, 0x0A, 0x3092, 0x958B, 0x3051] = [0x8956, 0x3092, 0x958B, 0x3051]"
proof -
  have "split_on NEWLINE [0x8956, 0x0A, 0x3092, 0x958B, 0x3051] = [[0x8956], [0x3092, 0x958B, 0x3051]]"
    by (simp add: NEWLINE_def)
  moreover have "fix_passes 5 [[0x8956], [0x3092, 0x958B, 0x3051]] =
      fst (pass_loop 0 [[0x8956], [0x3092, 0x958B, 0x3051]] [] False)"
    using fix_passes_one_pass [of 4] by simp
  ultimately show ?thesis by (simp add: fix_ruby_newlines_def fusuma_pass)
qed

lemma kana_no_merge: "successively no_merge (split_on NEWLINE [0x3042, 0x0A, 0x3044])"
  by (simp add: rule_eval)

text \<open>
  The theorem at two texts: the kanji U+8956 on a line of its own before a line that
  starts with hiragana, which is repaired into one line and then stays as it is; and two
  lines of one hiragana each, between which no rule applies, which stay as they are.
\<close>

theorem fix_ruby_newlines_idempotent_witness:
  "fix_ruby_newlines [0x8956, 0x0A, 0x3092, 0x958B, 0x3051] = [0x8956, 0x3092, 0x958B, 0x3051] \<and>
   fix_ruby_newlines [0x8956, 0x3092, 0x958B, 0x3051] = [0x8956, 0x3092, 0x958B, 0x3051] \<and>
   successively no_merge (split_on NEWLINE [0x3042, 0x0A, 0x3044]) \<and>
   fix_ruby_newlines [0x3042, 0x0A, 0x3044] = [0x3042, 0x0A, 0x3044]"
  using fix_ruby_newlines_idempotent [of "[]" "[0x8956, 0x0A, 0x3092, 0x958B, 0x3051]"]
    fix_ruby_newlines_idempotent [of "[]" "[0x3042, 0x0A, 0x3044]"] kana_no_merge
  by (simp add: fusuma_fixed)

section \<open>MarkupWalker\<close>

lemma strip_nonblank_iff: "strip s \<noteq> [] \<longleftrightarrow> (\<exists>c\<in>set s. \<not> py_isspace c)"
proof -
  have l: "lstrip s \<noteq> [] \<longleftrightarrow> (\<exists>c\<in>set s. \<not> py_isspace c)"
    by (auto simp: lstrip_def)
  have r: "\<And>t. rstrip t \<noteq> [] \<longleftrightarrow> (\<exists>c\<in>set t. \<not> py_isspace c)"
    by (auto simp: rstrip_def)
  have "(\<exists>c\<in>set (lstrip s). \<not> py_isspace c) \<longleftrightarrow> (\<exists>c\<in>set s. \<not> py_isspace c)"
  proof
    assume "\<exists>c\<in>set (lstrip s). \<not> py_isspace c"
    then show "\<exists>c\<in>set s. \<not> py_isspace c"
      unfolding lstrip_def by (auto dest: set_dropWhileD)
  next
    assume "\<exists>c\<in>set s. \<not> py_isspace c"
    then have "lstrip s \<noteq> []" using l by simp
    then have "\<not> py_isspace (hd (lstrip s))" unfolding lstrip_def by (rule hd_dropWhile)
    with \<open>lstrip s \<noteq> []\<close> show "\<exists>c\<in>set (lstrip s). \<not> py_isspace c"
      by (metis hd_in_set)
  qed
  with r [of "lstrip s"] show ?thesis by (simp add: strip_def)
qed

lemma verbatim_nodes_append:
  "verbatim_nodes (a @ b) = verbatim_nodes a @ verbatim_nodes b"
  by (induction a rule: verbatim_nodes.induct) auto

lemma verbatim_nodes_mem: "n \<in> set (verbatim_nodes ps) \<longleftrightarrow> Verbatim n \<in> set ps"
  by (induction ps rule: verbatim_nodes.induct) auto

lemma extract_as_pieces:
  "extract_text_with_ruby str_of g f cs =
   concat (map (render_piece str_of g f) (walk_pieces str_of g f cs))"
  by (induction str_of g f cs rule: extract_text_with_ruby.induct) (auto simp: Let_def)

lemma render_verbatim_nonblank:
  assumes "Verbatim n \<in> set ps" "strip (str_of n) \<noteq> []"
  shows "strip (concat (map (render_piece str_of g f) ps)) \<noteq> []"
proof -
  from assms(2) obtain c where c: "c \<in> set (str_of n)" "\<not> py_isspace c"
    using strip_nonblank_iff by blast
  from assms(1) c(1) have "c \<in> set (concat (map (render_piece str_of g f) ps))"
    by force
  with c(2) show ?thesis using strip_nonblank_iff by blast
qed

lemma pieces_reached:
  assumes H: "\<forall>attrs cs. strip (str_of (Tag ''ruby'' attrs cs)) \<noteq> []"
  shows "verbatim_nodes (walk_pieces str_of g f cs) = reached_rubies cs \<and>
         (\<forall>n\<in>set (reached_rubies cs). \<exists>attrs cs'. n = Tag ''ruby'' attrs cs')"
proof (induction cs rule: reached_rubies.induct)
  case 1
  then show ?case by simp
next
  case (2 s rest)
  then show ?case by (simp add: verbatim_nodes_append)
next
  case (3 name attrs cs rest)
  from "3.IH"(2) have rest: "verbatim_nodes (walk_pieces str_of g f rest) = reached_rubies rest"
    and rest_r: "\<forall>n\<in>set (reached_rubies rest). \<exists>attrs cs'. n = Tag ''ruby'' attrs cs'"
    by blast+
  consider (ruby) "name = ''ruby''" | (skip) "name \<noteq> ''ruby''" "name = ''rt'' \<or> name = ''br''"
    | (inside) "name \<noteq> ''ruby''" "\<not> (name = ''rt'' \<or> name = ''br'')" by blast
  then show ?case
  proof cases
    case ruby
    with rest rest_r show ?thesis by (simp add: verbatim_nodes_append)
  next
    case skip
    with rest rest_r show ?thesis
      by (auto simp: verbatim_nodes_append container_names_def)
  next
    case inside
    from "3.IH"(1) [OF inside] have
      ih: "verbatim_nodes (walk_pieces str_of g f cs) = reached_rubies cs"
      and ih_r: "\<forall>n\<in>set (reached_rubies cs). \<exists>attrs cs'. n = Tag ''ruby'' attrs cs'"
      by blast+
    define content where "content = walk_pieces str_of g f cs"
    have blank: "strip (concat (map (render_piece str_of g f) content)) = [] \<Longrightarrow> reached_rubies cs = []"
    proof (rule ccontr)
      assume b: "strip (concat (map (render_piece str_of g f) content)) = []"
        and "reached_rubies cs \<noteq> []"
      then obtain n where n: "n \<in> set (reached_rubies cs)" by (cases "reached_rubies cs") auto
      with ih_r obtain a c where "n = Tag ''ruby'' a c" by blast
      with H have nb: "strip (str_of n) \<noteq> []" by simp
      from n ih have "Verbatim n \<in> set content"
        by (simp add: content_def verbatim_nodes_mem [symmetric])
      from render_verbatim_nonblank [where str_of = str_of and g = g and f = f, OF this nb] b
      show False by blast
    qed
    have k1: "verbatim_nodes content = reached_rubies cs" using ih by (simp add: content_def)
    have "verbatim_nodes (walk_pieces str_of g f (Tag name attrs cs # rest)) =
        reached_rubies cs @ reached_rubies rest"
      using inside k1 blank rest
      by (auto simp: verbatim_nodes_append Let_def content_def [symmetric])
    with inside ih_r rest_r show ?thesis by auto
  qed
qed

lemma reached_in_output:
  assumes H: "\<forall>attrs cs. strip (str_of (Tag ''ruby'' attrs cs)) \<noteq> []"
    and r: "r \<in> set (reached_rubies cs)"
  shows "\<exists>pre post. extract_text_with_ruby str_of g f cs = pre @ str_of r @ post"
proof -
  from pieces_reached [OF H, of g f cs] r have "Verbatim r \<in> set (walk_pieces str_of g f cs)"
    by (simp add: verbatim_nodes_mem [symmetric])
  then obtain ps ss where "walk_pieces str_of g f cs = ps @ Verbatim r # ss"
    by (meson split_list)
  then have "extract_text_with_ruby str_of g f cs =
      concat (map (render_piece str_of g f) ps) @ str_of r @ concat (map (render_piece str_of g f) ss)"
    by (simp add: extract_as_pieces)
  then show ?thesis by blast
qed

subsection \<open>The clean-up after the traversal\<close>

lemma collapse_flush:
  "c \<noteq> NEWLINE \<Longrightarrow>
   collapse_newlines n (pre @ c # rest) = collapse_newlines n pre @ c # collapse_newlines 0 rest"
  by (induction pre arbitrary: n) auto

lemma collapse_append:
  "s \<noteq> [] \<Longrightarrow> last s \<noteq> NEWLINE \<Longrightarrow>
   collapse_newlines n (s @ post) = collapse_newlines n s @ collapse_newlines 0 post"
proof -
  assume "s \<noteq> []" "last s \<noteq> NEWLINE"
  then obtain s' c where s: "s = s' @ [c]" and c: "c \<noteq> NEWLINE"
    by (metis append_butlast_last_id)
  have "collapse_newlines n (s' @ c # post) = collapse_newlines n s' @ c # collapse_newlines 0 post"
    using c by (rule collapse_flush)
  moreover have "collapse_newlines n (s' @ c # []) = collapse_newlines n s' @ c # collapse_newlines 0 []"
    using c by (rule collapse_flush)
  ultimately show ?thesis by (simp add: s)
qed

lemma collapse_around:
  assumes "s \<noteq> []" "hd s \<noteq> NEWLINE" "last s \<noteq> NEWLINE" "collapse_newlines 0 s = s"
  shows "collapse_newlines 0 (pre @ s @ post) = collapse_newlines 0 pre @ s @ collapse_newlines 0 post"
proof -
  obtain c s' where s: "s = c # s'" using assms(1) by (cases s) auto
  with assms(2) have c: "c \<noteq> NEWLINE" by simp
  have "collapse_newlines 0 (pre @ c # (s' @ post)) =
        collapse_newlines 0 pre @ c # collapse_newlines 0 (s' @ post)"
    using c by (rule collapse_flush)
  moreover have "c # collapse_newlines 0 (s' @ post) = collapse_newlines 0 ((c # s') @ post)"
    using c by simp
  moreover have "collapse_newlines 0 (s @ post) = collapse_newlines 0 s @ collapse_newlines 0 post"
    using assms(1,3) by (rule collapse_append)
  ultimately show ?thesis using assms(4) by (simp add: s)
qed

lemma dropWhile_keeps:
  "s \<noteq> [] \<Longrightarrow> \<not> P (hd s) \<Longrightarrow> dropWhile P (a @ s @ b) = dropWhile P a @ s @ b"
  by (induction a) (auto simp: neq_Nil_conv)

lemma strip_keeps:
  assumes "s \<noteq> []" "\<not> py_isspace (hd s)" "\<not> py_isspace (last s)"
  shows "\<exists>a' b'. strip (a @ s @ b) = a' @ s @ b'"
proof -
  have l: "lstrip (a @ s @ b) = dropWhile py_isspace a @ s @ b"
    unfolding lstrip_def using assms(1,2) by (rule dropWhile_keeps)
  define a' where "a' = dropWhile py_isspace a"
  have "rev (a' @ s @ b) = rev b @ rev s @ rev a'" by simp
  moreover have "dropWhile py_isspace (rev b @ rev s @ rev a') =
      dropWhile py_isspace (rev b) @ rev s @ rev a'"
    using assms(1,3) by (intro dropWhile_keeps) (simp_all add: hd_rev)
  ultimately have "rstrip (a' @ s @ b) = a' @ s @ rev (dropWhile py_isspace (rev b))"
    by (simp add: rstrip_def)
  with l show ?thesis by (auto simp: strip_def a'_def)
qed

lemma newline_is_space: "py_isspace NEWLINE"
  by (simp add: py_isspace_def NEWLINE_def)

text \<open>
  C5 (as amended). Let the serializer give every ruby element a string that is not
  blank. After the non-content elements are removed and the images are replaced by their
  placeholders, the traversal appends, for every ruby element it reaches (one that is not
  inside another ruby element or an \<^verbatim>\<open>rt\<close> element), the serialization of that
  element, once and in document order, and hands nothing of it to the annotator: the
  output of the traversal is the concatenation of the pieces, and the verbatim pieces are
  exactly the reached ruby elements. When the serialization of a reached ruby element
  starts and ends with a character that is not white space and has no run of three or
  more newlines, it occurs unmodified in the output of \<open>preserve_existing_ruby\<close>.
\<close>

theorem preserve_existing_ruby_verbatim:
  assumes "\<forall>attrs cs. strip (str_of (Tag ''ruby'' attrs cs)) \<noteq> []"
  shows "(let soup2 = fst (replace_images 0 (decompose_all non_content soup)) in
     extract_text_with_ruby str_of g f soup2 =
       concat (map (render_piece str_of g f) (walk_pieces str_of g f soup2)) \<and>
     verbatim_nodes (walk_pieces str_of g f soup2) = reached_rubies soup2 \<and>
     (\<forall>r\<in>set (reached_rubies soup2).
        str_of r \<noteq> [] \<and> \<not> py_isspace (hd (str_of r)) \<and> \<not> py_isspace (last (str_of r)) \<and>
        collapse_newlines 0 (str_of r) = str_of r \<longrightarrow>
        sublist (str_of r) (preserve_existing_ruby str_of soup g f)))"
proof -
  define soup2 where "soup2 = fst (replace_images 0 (decompose_all non_content soup))"
  have a: "extract_text_with_ruby str_of g f soup2 =
       concat (map (render_piece str_of g f) (walk_pieces str_of g f soup2))"
    by (rule extract_as_pieces)
  have b: "verbatim_nodes (walk_pieces str_of g f soup2) = reached_rubies soup2"
    using pieces_reached [OF assms] by blast
  have c: "\<forall>r\<in>set (reached_rubies soup2).
        str_of r \<noteq> [] \<and> \<not> py_isspace (hd (str_of r)) \<and> \<not> py_isspace (last (str_of r)) \<and>
        collapse_newlines 0 (str_of r) = str_of r \<longrightarrow>
        sublist (str_of r) (preserve_existing_ruby str_of soup g f)"
  proof (intro ballI impI)
    fix r
    assume r: "r \<in> set (reached_rubies soup2)"
      and s: "str_of r \<noteq> [] \<and> \<not> py_isspace (hd (str_of r)) \<and> \<not> py_isspace (last (str_of r)) \<and>
        collapse_newlines 0 (str_of r) = str_of r"
    from reached_in_output [OF assms r] obtain pre post where
      w: "extract_text_with_ruby str_of g f soup2 = pre @ str_of r @ post" by blast
    from s newline_is_space have nl: "hd (str_of r) \<noteq> NEWLINE" "last (str_of r) \<noteq> NEWLINE"
      by auto
    have "collapse_newlines 0 (pre @ str_of r @ post) =
        collapse_newlines 0 pre @ str_of r @ collapse_newlines 0 post"
      using s nl by (intro collapse_around) simp_all
    moreover from strip_keeps [of "str_of r" "collapse_newlines 0 pre" "collapse_newlines 0 post"] s
    obtain a' b' where
      "strip (collapse_newlines 0 pre @ str_of r @ collapse_newlines 0 post) = a' @ str_of r @ b'"
      by blast
    ultimately have "preserve_existing_ruby str_of soup g f = a' @ str_of r @ b'"
      by (simp add: preserve_existing_ruby_def Let_def soup2_def [symmetric] w)
    then show "sublist (str_of r) (preserve_existing_ruby str_of soup g f)"
      unfolding sublist_def by blast
  qed
  from a b c show ?thesis unfolding Let_def soup2_def by blast
qed

lemma plain_str_ruby_nonblank: "\<forall>attrs cs. strip (plain_str (Tag ''ruby'' attrs cs)) \<noteq> []"
proof (intro allI)
  fix attrs cs
  have "0x3C \<in> set (plain_str (Tag ''ruby'' attrs cs))" by (simp add: ascii_def)
  moreover have "\<not> py_isspace 0x3C" by (simp add: py_isspace_def)
  ultimately show "strip (plain_str (Tag ''ruby'' attrs cs)) \<noteq> []"
    using strip_nonblank_iff by blast
qed

lemmas walk_eval = preserve_existing_ruby_def non_content_def container_names_def block_names_def
  ruby_elem_def ascii_def NEWLINE_def strip_def lstrip_def rstrip_def py_isspace_def Let_def

lemma plain_ruby_output:
  "preserve_existing_ruby plain_str doc_plain_ruby gen_plain False =
     plain_str (ruby_elem [0x6F22] [0x304B, 0x3093])"
  by (simp add: walk_eval doc_plain_ruby_def)

lemma plain_ruby_reached:
  "reached_rubies (fst (replace_images 0 (decompose_all non_content doc_plain_ruby))) =
     [ruby_elem [0x6F22] [0x304B, 0x3093]]"
  by (simp add: walk_eval doc_plain_ruby_def)

text \<open>
  The theorem at a paragraph that holds one ruby element, U+6F22 read ka-n, with the
  serializer of the examples: the output is the serialization of the ruby element.
\<close>

theorem preserve_existing_ruby_verbatim_witness:
  "reached_rubies (fst (replace_images 0 (decompose_all non_content doc_plain_ruby))) =
     [ruby_elem [0x6F22] [0x304B, 0x3093]] \<and>
   preserve_existing_ruby plain_str doc_plain_ruby gen_plain False =
     plain_str (ruby_elem [0x6F22] [0x304B, 0x3093]) \<and>
   sublist (plain_str (ruby_elem [0x6F22] [0x304B, 0x3093]))
     (preserve_existing_ruby plain_str doc_plain_ruby gen_plain False)"
  using preserve_existing_ruby_verbatim [OF plain_str_ruby_nonblank, of doc_plain_ruby gen_plain False]
  by (simp add: plain_ruby_output plain_ruby_reached)

text \<open>
  C5 as stated fails on three documents. A ruby element inside a \<^verbatim>\<open>nav\<close> element
  is removed with it, and the output is empty. A ruby element whose base has three
  newlines in a row comes out with two: the clean-up of the whole text reaches into it.
  A ruby element whose base is an image comes out with the placeholder of the image as
  its base.
\<close>

theorem preserve_existing_ruby_verbatim_counterexample:
  "find_all [''ruby''] doc_nav_ruby = [ruby_elem [0x6F22] [0x304B, 0x3093]] \<and>
   preserve_existing_ruby plain_str doc_nav_ruby gen_plain False = [] \<and>
   direct_text [NavigableString [0x6F22, 0x0A, 0x0A, 0x0A, 0x5B57],
                Tag ''rt'' [] [NavigableString [0x304B, 0x3093, 0x3058]]] =
     [0x6F22, 0x0A, 0x0A, 0x0A, 0x5B57] \<and>
   preserve_existing_ruby plain_str doc_newline_ruby gen_plain False =
     ascii ''<ruby>'' @ [0x6F22, 0x0A, 0x0A, 0x5B57] @ ascii ''<rt>'' @ [0x304B, 0x3093, 0x3058] @
     ascii ''</rt></ruby>'' \<and>
   preserve_existing_ruby plain_str doc_img_ruby gen_plain False =
     ascii ''<ruby>'' @ [0x0A] @ ascii ''[IMAGE:b.png]'' @ [0x0A] @ ascii ''<rt>'' @ [0x304B] @
     ascii ''</rt></ruby>''"
  by (simp add: walk_eval doc_nav_ruby_def doc_newline_ruby_def doc_img_ruby_def
      image_placeholder_def)

end
